theory Spec2Isabelle
  imports Main "HOL-Library.Word"
begin

unbundle bit_operations_syntax

section \<open>The swap I/O path of mm/page\_io.c\<close>

text \<open>
  A shallow embedding of \<^verbatim>\<open>linux-5.5/mm/page_io.c\<close>: the extent scan
  \<^verbatim>\<open>generic_swapfile_activate\<close>, the request builder \<^verbatim>\<open>get_swap_bio\<close>, the two
  completion handlers, \<^verbatim>\<open>swap_slot_free_notify\<close>, and the entry points
  \<^verbatim>\<open>swap_writepage\<close>, \<^verbatim>\<open>swap_readpage\<close> and \<^verbatim>\<open>swap_readpage_async\<close>.
  Machine integers are words of the width the C types have on a 64-bit kernel
  (\<^verbatim>\<open>sector_t\<close>, \<^verbatim>\<open>unsigned long\<close>: 64 bits; \<^verbatim>\<open>unsigned\<close>: 32 bits).
\<close>

subsection \<open>Constants and types\<close>

type_synonym sector_t = "64 word"
type_synonym ulong = "64 word"
type_synonym uint = "32 word"

text \<open>\<^verbatim>\<open>PAGE_SHIFT\<close> and \<^verbatim>\<open>PAGE_SIZE\<close> come from the architecture headers; 4 KiB pages.\<close>

definition PAGE_SHIFT :: uint where
  "PAGE_SHIFT = 12"

definition PAGE_SIZE :: ulong where
  "PAGE_SIZE = push_bit (unat PAGE_SHIFT) 1"

definition EINVAL :: int where
  "EINVAL = 22"

definition ENOMEM :: int where
  "ENOMEM = 12"

subsection \<open>The backing store\<close>

text \<open>
  \<^verbatim>\<open>struct swap_extent\<close> and the fields of \<^verbatim>\<open>struct swap_info_struct\<close> that this
  file reads or writes (declared in \<^verbatim>\<open>include/linux/swap.h\<close>). The red-black tree
  \<^verbatim>\<open>swap_extent_root\<close> is kept as the list of its nodes in ascending order.
\<close>

record swap_extent =
  se_start_page :: ulong
  se_nr_pages :: ulong
  se_start_block :: sector_t

datatype swp_flag = SWP_USED | SWP_WRITEOK | SWP_BLKDEV | SWP_ACTIVATED | SWP_FS

record swap_info_struct =
  sis_flags :: "swp_flag set"
  sis_max :: uint
  sis_pages :: uint
  sis_highest_bit :: uint
  sis_extents :: "swap_extent list"
  sis_bdev :: nat

text \<open>
  Modelled from the spec: \<^verbatim>\<open>add_swap_extent\<close> lives in \<^verbatim>\<open>mm/swapfile.c\<close>, which is
  not part of the sources at hand. The spec says that each stride is "appended to (or
  merged with) the current extent", an extent being "a maximal run of count consecutive
  logical slots starting at slot\_start, mapped to consecutive physical blocks starting at
  block\_start", and that the builder returns "the count of extents". So the helper
  merges the new run into the last extent when both the slots and the blocks continue it
  and reports 0; otherwise it appends a new extent and reports 1.
\<close>

definition add_swap_extent ::
  "swap_info_struct \<Rightarrow> ulong \<Rightarrow> ulong \<Rightarrow> sector_t \<Rightarrow> int \<times> swap_info_struct" where
  "add_swap_extent sis start_page nr_pages start_block =
     (case rev (sis_extents sis) of
        [] \<Rightarrow>
          (1, sis\<lparr>sis_extents :=
                 [\<lparr>se_start_page = start_page, se_nr_pages = nr_pages,
                   se_start_block = start_block\<rparr>]\<rparr>)
      | se # older \<Rightarrow>
          if se_start_page se + se_nr_pages se = start_page \<and>
             se_start_block se + se_nr_pages se = start_block
          then (0, sis\<lparr>sis_extents :=
                 rev (se\<lparr>se_nr_pages := se_nr_pages se + nr_pages\<rparr> # older)\<rparr>)
          else (1, sis\<lparr>sis_extents := sis_extents sis @
                 [\<lparr>se_start_page = start_page, se_nr_pages = nr_pages,
                   se_start_block = start_block\<rparr>]\<rparr>))"

subsection \<open>generic\_swapfile\_activate\<close>

text \<open>
  The inode is given by \<^verbatim>\<open>i_blkbits\<close>, \<^verbatim>\<open>i_size\<close> and the block map \<^verbatim>\<open>bmap\<close>, which
  answers 0 for a hole. The inner \<^verbatim>\<open>for\<close> loop over \<^verbatim>\<open>block_in_page\<close> has three
  outcomes: a hole (\<^verbatim>\<open>goto bad_bmap\<close>), a discontiguity (\<^verbatim>\<open>goto reprobe\<close>), or the
  loop runs to its end.
\<close>

datatype stride = Hole | Discontiguity | Contiguous

function check_stride ::
  "(sector_t \<Rightarrow> sector_t) \<Rightarrow> sector_t \<Rightarrow> sector_t \<Rightarrow> uint \<Rightarrow> uint \<Rightarrow> stride" where
  "check_stride bmap probe_block first_block blocks_per_page block_in_page =
     (if block_in_page < blocks_per_page then
        (let block = bmap (probe_block + ucast block_in_page) in
         if block = 0 then Hole
         else if block \<noteq> first_block + ucast block_in_page then Discontiguity
         else check_stride bmap probe_block first_block blocks_per_page (block_in_page + 1))
      else Contiguous)"
  by pat_completeness auto
termination
proof (relation "measure (\<lambda>(bmap, probe_block, first_block, blocks_per_page, block_in_page).
                    unat blocks_per_page - unat block_in_page)")
  show "wf (measure (\<lambda>(bmap :: sector_t \<Rightarrow> sector_t, probe_block :: sector_t,
                       first_block :: sector_t, blocks_per_page :: uint, block_in_page :: uint).
                    unat blocks_per_page - unat block_in_page))"
    by simp
next
  fix bmap :: "sector_t \<Rightarrow> sector_t" and probe_block first_block :: sector_t
    and blocks_per_page block_in_page :: uint and x
  assume lt: "block_in_page < blocks_per_page"
  have "unat block_in_page < unat blocks_per_page"
    using lt by (simp add: word_less_nat_alt)
  moreover have "unat blocks_per_page < 2 ^ 32"
    using unsigned_less [of blocks_per_page] by simp
  ultimately have "unat block_in_page + unat (1 :: uint) < 2 ^ LENGTH(32)"
    by simp
  then have "unat (block_in_page + 1) = unat block_in_page + 1"
    by (simp add: unat_add_lem [THEN iffD1])
  with \<open>unat block_in_page < unat blocks_per_page\<close> show "((bmap, probe_block, first_block, blocks_per_page, block_in_page + 1),
          (bmap, probe_block, first_block, blocks_per_page, block_in_page))
        \<in> measure (\<lambda>(bmap, probe_block, first_block, blocks_per_page, block_in_page).
                    unat blocks_per_page - unat block_in_page)"
    by simp
qed

declare check_stride.simps [simp del]

text \<open>The local variables of the scan that live across iterations of the \<^verbatim>\<open>while\<close> loop.\<close>

record scan =
  probe_block :: sector_t
  page_no :: ulong
  lowest_block :: sector_t
  highest_block :: sector_t
  nr_extents :: int
  scan_sis :: swap_info_struct

text \<open>What the caller sees: the return value, the store, and \<^verbatim>\<open>*span\<close>.\<close>

record activation =
  act_ret :: int
  act_sis :: swap_info_struct
  act_span :: sector_t

text \<open>
  The \<^verbatim>\<open>while\<close> loop. \<^verbatim>\<open>probe_block + blocks_per_page\<close> is 64-bit arithmetic and may
  wrap, so the loop need not end for every input; not returning is the value \<open>None\<close>.
  The label \<^verbatim>\<open>bad_bmap\<close> returns \<^verbatim>\<open>-EINVAL\<close>; a negative answer of
  \<^verbatim>\<open>add_swap_extent\<close> is returned as it is (\<^verbatim>\<open>goto out\<close>); neither writes
  \<^verbatim>\<open>*span\<close> or the slot counts of the store. The helper \<^verbatim>\<open>add_swap_extent\<close> is the
  parameter \<open>ase\<close>. The shift \<^verbatim>\<open>PAGE_SHIFT - blkbits\<close> is unsigned 32-bit arithmetic;
  the kernel only has \<^verbatim>\<open>blkbits \<le> PAGE_SHIFT\<close>, beyond that the C shift is undefined.
\<close>

partial_function (option) activate_loop ::
  "(swap_info_struct \<Rightarrow> ulong \<Rightarrow> ulong \<Rightarrow> sector_t \<Rightarrow> int \<times> swap_info_struct) \<Rightarrow>
   (sector_t \<Rightarrow> sector_t) \<Rightarrow> uint \<Rightarrow> uint \<Rightarrow> sector_t \<Rightarrow> sector_t \<Rightarrow> scan \<Rightarrow>
   activation option" where
  "activate_loop ase bmap blkbits blocks_per_page last_block span st =
     (if probe_block st + ucast blocks_per_page \<le> last_block \<and>
         page_no st < ucast (sis_max (scan_sis st)) then
        (let first_block = bmap (probe_block st) in
         if first_block = 0 then
           Some \<lparr>act_ret = - EINVAL, act_sis = scan_sis st, act_span = span\<rparr>
         else if first_block AND ucast (blocks_per_page - 1) \<noteq> 0 then
           activate_loop ase bmap blkbits blocks_per_page last_block span
             (st\<lparr>probe_block := probe_block st + 1\<rparr>)
         else
           (case check_stride bmap (probe_block st) first_block blocks_per_page 1 of
              Hole \<Rightarrow> Some \<lparr>act_ret = - EINVAL, act_sis = scan_sis st, act_span = span\<rparr>
            | Discontiguity \<Rightarrow>
                activate_loop ase bmap blkbits blocks_per_page last_block span
                  (st\<lparr>probe_block := probe_block st + 1\<rparr>)
            | Contiguous \<Rightarrow>
                (let first_block = drop_bit (unat (PAGE_SHIFT - blkbits)) first_block;
                     lowest = (if page_no st \<noteq> 0 \<and> first_block < lowest_block st
                               then first_block else lowest_block st);
                     highest = (if page_no st \<noteq> 0 \<and> first_block > highest_block st
                                then first_block else highest_block st);
                     r = ase (scan_sis st) (page_no st) 1 first_block
                 in if fst r < 0 then
                      Some \<lparr>act_ret = fst r, act_sis = snd r, act_span = span\<rparr>
                    else
                      activate_loop ase bmap blkbits blocks_per_page last_block span
                        (st\<lparr>probe_block := probe_block st + ucast blocks_per_page,
                            page_no := page_no st + 1,
                            lowest_block := lowest,
                            highest_block := highest,
                            nr_extents := nr_extents st + fst r,
                            scan_sis := snd r\<rparr>))))
      else
        (let page_no' = (if page_no st = 0 then 1 else page_no st) in
         Some \<lparr>act_ret = nr_extents st,
               act_sis = (scan_sis st)\<lparr>sis_max := ucast page_no',
                                       sis_pages := ucast (page_no' - 1),
                                       sis_highest_bit := ucast (page_no' - 1)\<rparr>,
               act_span = 1 + highest_block st - lowest_block st\<rparr>))"

declare activate_loop.simps [code]

text \<open>
  The function itself: \<^verbatim>\<open>i_size\<close> is a signed 64-bit \<^verbatim>\<open>loff_t\<close>, so its right shift
  is arithmetic; \<^verbatim>\<open>blocks_per_page\<close> is \<^verbatim>\<open>PAGE_SIZE >> blkbits\<close> cut to 32 bits;
  \<^verbatim>\<open>lowest_block\<close> starts at \<^verbatim>\<open>-1\<close>, the largest sector.
\<close>

definition generic_swapfile_activate ::
  "(swap_info_struct \<Rightarrow> ulong \<Rightarrow> ulong \<Rightarrow> sector_t \<Rightarrow> int \<times> swap_info_struct) \<Rightarrow>
   swap_info_struct \<Rightarrow> uint \<Rightarrow> 64 word \<Rightarrow> (sector_t \<Rightarrow> sector_t) \<Rightarrow> sector_t \<Rightarrow>
   activation option" where
  "generic_swapfile_activate ase sis i_blkbits i_size bmap span =
     (let blkbits = i_blkbits;
          blocks_per_page = (ucast (drop_bit (unat blkbits) PAGE_SIZE) :: uint);
          last_block = signed_drop_bit (unat blkbits) i_size
      in activate_loop ase bmap blkbits blocks_per_page last_block span
           \<lparr>probe_block = 0, page_no = 0, lowest_block = - 1, highest_block = 0,
            nr_extents = 0, scan_sis = sis\<rparr>)"

subsection \<open>The strides that become slots\<close>

text \<open>
  The three tests that the stride starting at block \<open>p\<close> passes before the scan takes
  it for a slot (lines 189 to 213): its first block is mapped, the first block is aligned
  to a page of blocks, and the inner loop runs to its end.
\<close>

definition whole_stride :: "(sector_t \<Rightarrow> sector_t) \<Rightarrow> uint \<Rightarrow> sector_t \<Rightarrow> bool" where
  "whole_stride bmap blocks_per_page p \<longleftrightarrow>
     bmap p \<noteq> 0 \<and> bmap p AND ucast (blocks_per_page - 1) = 0 \<and>
     check_stride bmap p (bmap p) blocks_per_page 1 = Contiguous"

text \<open>
  The blocks from \<open>p\<close> up to \<open>q\<close> (excluded) at which such a stride starts,
  in ascending order.
\<close>

definition strides_between ::
  "(sector_t \<Rightarrow> sector_t) \<Rightarrow> uint \<Rightarrow> sector_t \<Rightarrow> sector_t \<Rightarrow> sector_t list" where
  "strides_between bmap blocks_per_page p q =
     filter (whole_stride bmap blocks_per_page) (map of_nat [unat p..<unat q])"

text \<open>
  What the scan does with a stride it has taken (lines 215 and 226 to 230), for a list of
  strides and the slot numbers from \<open>slot\<close> on: the first block is shifted down
  to a page number and handed to \<^verbatim>\<open>add_swap_extent\<close> for one slot; a negative answer
  ends the calls and is the result, otherwise the result is 0 and the store as the last
  call left it.
\<close>

fun add_strides ::
  "(swap_info_struct \<Rightarrow> ulong \<Rightarrow> ulong \<Rightarrow> sector_t \<Rightarrow> int \<times> swap_info_struct) \<Rightarrow>
   (sector_t \<Rightarrow> sector_t) \<Rightarrow> uint \<Rightarrow> swap_info_struct \<Rightarrow> ulong \<Rightarrow> sector_t list \<Rightarrow>
   int \<times> swap_info_struct" where
  "add_strides ase bmap blkbits sis slot [] = (0, sis)"
| "add_strides ase bmap blkbits sis slot (p # ps) =
     (let first_block = drop_bit (unat (PAGE_SHIFT - blkbits)) (bmap p);
          r = ase sis slot 1 first_block
      in if fst r < 0 then r
         else add_strides ase bmap blkbits (snd r) (slot + 1) ps)"

subsection \<open>Pages\<close>

text \<open>
  The page flags this file tests or changes, the swap entry kept in \<^verbatim>\<open>page_private\<close>
  (the page's assigned slot: device id and logical offset), and whether the page is a
  transparent huge page. \<^verbatim>\<open>hpage_nr_pages\<close> is \<^verbatim>\<open>HPAGE_PMD_NR\<close> (512 with 4 KiB pages
  and 2 MiB huge pages) for a huge page and 1 otherwise.
\<close>

record swp_entry =
  swp_type :: nat
  swp_offset :: ulong

record page =
  PG_locked :: bool
  PG_writeback :: bool
  PG_uptodate :: bool
  PG_error :: bool
  PG_dirty :: bool
  PG_reclaim :: bool
  PG_swapcache :: bool
  PageTransHuge :: bool
  page_private :: swp_entry

definition hpage_nr_pages :: "page \<Rightarrow> nat" where
  "hpage_nr_pages p = (if PageTransHuge p then 512 else 1)"

definition page_file_index :: "page \<Rightarrow> ulong" where
  "page_file_index p = swp_offset (page_private p)"

definition swap_page_sector :: "page \<Rightarrow> sector_t" where
  "swap_page_sector p = push_bit (unat (PAGE_SHIFT - 9)) (page_file_index p)"

subsection \<open>Requests, events and the kernel state\<close>

text \<open>
  A \<^verbatim>\<open>struct bio\<close> with the fields this file sets. \<^verbatim>\<open>bi_end_io\<close> is a function
  pointer; the handlers that can be installed are enumerated. \<^verbatim>\<open>bi_private\<close> holds the
  waiting task, if any. \<^verbatim>\<open>bi_cnt\<close> is the reference count moved by \<^verbatim>\<open>bio_get\<close> and
  \<^verbatim>\<open>bio_put\<close>.
\<close>

datatype bio_end_io = END_SWAP_BIO_WRITE | END_SWAP_BIO_READ | END_OTHER

datatype req_flag = REQ_OP_READ | REQ_OP_WRITE | REQ_SWAP | REQ_HIPRI | REQ_SYNC

record bio =
  bi_sector :: sector_t
  bi_bdev :: nat
  bi_end_io :: bio_end_io
  bi_private :: "nat option"
  bi_status :: "8 word"
  bi_opf :: "req_flag set"
  bi_size :: nat
  bi_cnt :: nat

datatype task_state = TASK_RUNNING | TASK_UNINTERRUPTIBLE

text \<open>
  Every call that leaves this file for the page cache, the block layer, a filesystem,
  the front-end cache or the scheduler is recorded, in order, in a trace, and so is the
  lookup of a page's block by \<^verbatim>\<open>map_swap_page\<close>.
\<close>

datatype event =
    Ev_unlock_page
  | Ev_trylock_page bool
  | Ev_set_page_writeback
  | Ev_end_page_writeback
  | Ev_set_page_dirty
  | Ev_SetPageDirty
  | Ev_SetPageError
  | Ev_SetPageUptodate
  | Ev_ClearPageUptodate
  | Ev_ClearPageReclaim
  | Ev_pr_alert
  | Ev_pr_err
  | Ev_slot_free_notify nat ulong
  | Ev_clear_bi_private
  | Ev_bio_get
  | Ev_bio_put
  | Ev_get_task_struct nat
  | Ev_put_task_struct nat
  | Ev_blk_wake_io_task nat
  | Ev_map_swap_page
  | Ev_submit_bio bio
  | Ev_bio_endio "8 word"
  | Ev_blk_poll
  | Ev_io_schedule
  | Ev_set_current_state task_state
  | Ev_bdev_write_page sector_t
  | Ev_bdev_read_page sector_t
  | Ev_direct_IO
  | Ev_readpage
  | Ev_try_to_free_swap
  | Ev_frontswap_store
  | Ev_frontswap_load
  | Ev_frontswap_load_async
  | Ev_psi_memstall_enter
  | Ev_psi_memstall_leave

text \<open>
  The state: the page being transferred, the request built for it (\<open>None\<close> is the
  \<^verbatim>\<open>NULL\<close> pointer, or a request already freed), the event counters \<^verbatim>\<open>PSWPOUT\<close>,
  \<^verbatim>\<open>PSWPIN\<close> and \<^verbatim>\<open>THP_SWPOUT\<close>, and the trace.
\<close>

record kstate =
  pg :: page
  req :: "bio option"
  PSWPOUT :: nat
  PSWPIN :: nat
  THP_SWPOUT :: nat
  trace :: "event list"

text \<open>
  What this file calls but does not define is a parameter: the delegates answer with a
  return value and the page as they leave it (\<^verbatim>\<open>direct_IO\<close> gets the page's bytes
  through an \<^verbatim>\<open>iov_iter\<close> and answers with the number of bytes written or a negative
  error, a 64-bit \<^verbatim>\<open>ssize_t\<close>); \<open>bio_alloc\<close> says whether the allocation succeeds; \<open>map_swap_page\<close> answers the block and the device for a page;
  \<open>swap_count\<close> is \<^verbatim>\<open>__swap_count\<close>; \<open>has_slot_free_notify\<close> says whether
  \<^verbatim>\<open>disk->fops->swap_slot_free_notify\<close> is set; \<open>page_swap_info\<close> is the store of the
  page. For a blocking read, \<open>completes_after\<close> is the number of rounds of the poll
  loop that pass before the block layer completes the request (\<open>None\<close>: it never
  does), \<open>completion_status\<close> the status it completes with, and \<open>blk_poll\<close> the
  answer of \<^verbatim>\<open>blk_poll\<close> in each round.
\<close>

record env =
  page_swap_info :: swap_info_struct
  try_to_free_swap :: "page \<Rightarrow> bool \<times> page"
  frontswap_store :: "page \<Rightarrow> int \<times> page"
  frontswap_load :: "page \<Rightarrow> int \<times> page"
  frontswap_load_async :: "page \<Rightarrow> int \<times> page"
  direct_IO :: "page \<Rightarrow> 64 word"
  readpage :: "page \<Rightarrow> int \<times> page"
  bdev_write_page :: "sector_t \<Rightarrow> page \<Rightarrow> int \<times> page"
  bdev_read_page :: "sector_t \<Rightarrow> page \<Rightarrow> int \<times> page"
  bio_alloc :: bool
  map_swap_page :: "page \<Rightarrow> sector_t \<times> nat"
  swap_count :: "swp_entry \<Rightarrow> int"
  has_slot_free_notify :: bool
  current_task :: nat
  completes_after :: "nat option"
  completion_status :: "8 word"
  blk_poll :: "nat \<Rightarrow> bool"

definition ev :: "event \<Rightarrow> kstate \<Rightarrow> kstate" where
  "ev e s = s\<lparr>trace := trace s @ [e]\<rparr>"

text \<open>
  Modelled from the spec: the page-cache capability ("lock/unlock, set/clear uptodate,
  error, dirty, writeback") is declared in kernel headers that are not part of the
  sources at hand. Each operation sets or clears its flag and is recorded.
\<close>

definition unlock_page :: "kstate \<Rightarrow> kstate" where
  "unlock_page s = ev Ev_unlock_page (s\<lparr>pg := (pg s)\<lparr>PG_locked := False\<rparr>\<rparr>)"

definition trylock_page :: "kstate \<Rightarrow> bool \<times> kstate" where
  "trylock_page s =
     (if PG_locked (pg s) then (False, ev (Ev_trylock_page False) s)
      else (True, ev (Ev_trylock_page True) (s\<lparr>pg := (pg s)\<lparr>PG_locked := True\<rparr>\<rparr>)))"

definition set_page_writeback :: "kstate \<Rightarrow> kstate" where
  "set_page_writeback s = ev Ev_set_page_writeback (s\<lparr>pg := (pg s)\<lparr>PG_writeback := True\<rparr>\<rparr>)"

definition end_page_writeback :: "kstate \<Rightarrow> kstate" where
  "end_page_writeback s = ev Ev_end_page_writeback (s\<lparr>pg := (pg s)\<lparr>PG_writeback := False\<rparr>\<rparr>)"

definition set_page_dirty :: "kstate \<Rightarrow> kstate" where
  "set_page_dirty s = ev Ev_set_page_dirty (s\<lparr>pg := (pg s)\<lparr>PG_dirty := True\<rparr>\<rparr>)"

definition SetPageDirty :: "kstate \<Rightarrow> kstate" where
  "SetPageDirty s = ev Ev_SetPageDirty (s\<lparr>pg := (pg s)\<lparr>PG_dirty := True\<rparr>\<rparr>)"

definition SetPageError :: "kstate \<Rightarrow> kstate" where
  "SetPageError s = ev Ev_SetPageError (s\<lparr>pg := (pg s)\<lparr>PG_error := True\<rparr>\<rparr>)"

definition SetPageUptodate :: "kstate \<Rightarrow> kstate" where
  "SetPageUptodate s = ev Ev_SetPageUptodate (s\<lparr>pg := (pg s)\<lparr>PG_uptodate := True\<rparr>\<rparr>)"

definition ClearPageUptodate :: "kstate \<Rightarrow> kstate" where
  "ClearPageUptodate s = ev Ev_ClearPageUptodate (s\<lparr>pg := (pg s)\<lparr>PG_uptodate := False\<rparr>\<rparr>)"

definition ClearPageReclaim :: "kstate \<Rightarrow> kstate" where
  "ClearPageReclaim s = ev Ev_ClearPageReclaim (s\<lparr>pg := (pg s)\<lparr>PG_reclaim := False\<rparr>\<rparr>)"

text \<open>
  Modelled from the spec: the block-I/O capability ("allocate request, attach pages,
  submit, poll") and the request's reference count. \<^verbatim>\<open>bio_put\<close> frees the request when
  the last reference goes. \<^verbatim>\<open>bio_endio\<close> is the block layer completing the request
  with a status: it calls the installed handler once ("a continuation value attached to
  the IORequest at construction time, invoked exactly once by the I/O subsystem,
  carrying a success/failure result").
\<close>

definition bio_get :: "kstate \<Rightarrow> kstate" where
  "bio_get s = ev Ev_bio_get (s\<lparr>req := map_option (\<lambda>b. b\<lparr>bi_cnt := bi_cnt b + 1\<rparr>) (req s)\<rparr>)"

definition bio_put :: "kstate \<Rightarrow> kstate" where
  "bio_put s =
     ev Ev_bio_put
       (s\<lparr>req := (case req s of
                    None \<Rightarrow> None
                  | Some b \<Rightarrow> if bi_cnt b \<le> 1 then None
                              else Some (b\<lparr>bi_cnt := bi_cnt b - 1\<rparr>))\<rparr>)"

definition submit_bio :: "kstate \<Rightarrow> kstate" where
  "submit_bio s = (case req s of None \<Rightarrow> s | Some b \<Rightarrow> ev (Ev_submit_bio b) s)"

definition count_vm_event_PSWPOUT :: "kstate \<Rightarrow> kstate" where
  "count_vm_event_PSWPOUT s = s\<lparr>PSWPOUT := PSWPOUT s + 1\<rparr>"

definition count_vm_event_PSWPIN :: "kstate \<Rightarrow> kstate" where
  "count_vm_event_PSWPIN s = s\<lparr>PSWPIN := PSWPIN s + 1\<rparr>"

subsection \<open>get\_swap\_bio\<close>

text \<open>
  The result is left in \<open>req\<close>; \<open>None\<close> is the \<^verbatim>\<open>NULL\<close> of a failed
  \<^verbatim>\<open>bio_alloc\<close>. The sector is what \<^verbatim>\<open>map_swap_page\<close> answers, shifted left by
  \<^verbatim>\<open>PAGE_SHIFT - 9\<close>.
\<close>

definition get_swap_bio :: "env \<Rightarrow> bio_end_io \<Rightarrow> kstate \<Rightarrow> kstate" where
  "get_swap_bio e end_io s =
     (if bio_alloc e then
        (let m = map_swap_page e (pg s);
             bio = \<lparr>bi_sector = fst m, bi_bdev = snd m, bi_end_io = END_OTHER,
                    bi_private = None, bi_status = 0, bi_opf = {}, bi_size = 0, bi_cnt = 1\<rparr>;
             bio = bio\<lparr>bi_sector := push_bit (unat (PAGE_SHIFT - 9)) (bi_sector bio)\<rparr>;
             bio = bio\<lparr>bi_end_io := end_io\<rparr>;
             bio = bio\<lparr>bi_size := unat PAGE_SIZE * hpage_nr_pages (pg s)\<rparr>
         in ev Ev_map_swap_page (s\<lparr>req := Some bio\<rparr>))
      else s\<lparr>req := None\<rparr>)"

subsection \<open>end\_swap\_bio\_write\<close>

definition end_swap_bio_write :: "bio \<Rightarrow> kstate \<Rightarrow> kstate" where
  "end_swap_bio_write bio s =
     (let s = (if bi_status bio \<noteq> 0 then
                 (let s = SetPageError s;
                      s = set_page_dirty s;
                      s = ev Ev_pr_alert s;
                      s = ClearPageReclaim s
                  in s)
               else s);
          s = end_page_writeback s;
          s = bio_put s
      in s)"

subsection \<open>swap\_slot\_free\_notify\<close>

definition swap_slot_free_notify :: "env \<Rightarrow> kstate \<Rightarrow> kstate" where
  "swap_slot_free_notify e s =
     (if \<not> PG_swapcache (pg s) then s
      else
        (let sis = page_swap_info e in
         if SWP_BLKDEV \<notin> sis_flags sis then s
         else
           (let entry = page_private (pg s) in
            if has_slot_free_notify e \<and> swap_count e entry = 1 then
              (let offset = swp_offset entry;
                   s = SetPageDirty s;
                   s = ev (Ev_slot_free_notify (sis_bdev sis) offset) s
               in s)
            else s)))"

subsection \<open>end\_swap\_bio\_read\<close>

definition end_swap_bio_read :: "env \<Rightarrow> bio \<Rightarrow> kstate \<Rightarrow> kstate" where
  "end_swap_bio_read e bio s =
     (let waiter = bi_private bio;
          s = (if bi_status bio \<noteq> 0 then
                 (let s = SetPageError s;
                      s = ClearPageUptodate s;
                      s = ev Ev_pr_alert s
                  in s)
               else
                 (let s = SetPageUptodate s;
                      s = swap_slot_free_notify e s
                  in s));
          s = unlock_page s;
          s = ev Ev_clear_bi_private (s\<lparr>req := map_option (\<lambda>b. b\<lparr>bi_private := None\<rparr>) (req s)\<rparr>);
          s = bio_put s
      in case waiter of
           None \<Rightarrow> s
         | Some t \<Rightarrow> ev (Ev_put_task_struct t) (ev (Ev_blk_wake_io_task t) s))"

definition bio_endio :: "env \<Rightarrow> 8 word \<Rightarrow> kstate \<Rightarrow> kstate" where
  "bio_endio e status s =
     (case req s of
        None \<Rightarrow> s
      | Some b \<Rightarrow>
          (let bio = b\<lparr>bi_status := status\<rparr>;
               s = ev (Ev_bio_endio status) (s\<lparr>req := Some bio\<rparr>)
           in case bi_end_io bio of
                END_SWAP_BIO_WRITE \<Rightarrow> end_swap_bio_write bio s
              | END_SWAP_BIO_READ \<Rightarrow> end_swap_bio_read e bio s
              | END_OTHER \<Rightarrow> s))"

subsection \<open>The write path\<close>

text \<open>
  \<^verbatim>\<open>VM_BUG_ON_PAGE\<close> stops the kernel when its condition holds; it is the one error
  of the entry points, which otherwise answer with an \<^verbatim>\<open>int\<close> and the state.
\<close>

datatype error = VM_BUG_ON

definition call :: "(page \<Rightarrow> int \<times> page) \<Rightarrow> event \<Rightarrow> kstate \<Rightarrow> int \<times> kstate" where
  "call f evn s = (let r = f (pg s) in (fst r, ev evn (s\<lparr>pg := snd r\<rparr>)))"

definition count_swpout_vm_event :: "kstate \<Rightarrow> kstate" where
  "count_swpout_vm_event s =
     (let s = (if PageTransHuge (pg s) then s\<lparr>THP_SWPOUT := THP_SWPOUT s + 1\<rparr> else s)
      in s\<lparr>PSWPOUT := PSWPOUT s + hpage_nr_pages (pg s)\<rparr>)"

text \<open>
  \<^verbatim>\<open>__swap_writepage\<close> (an Isabelle name cannot start with an underscore). \<open>wbc\<close> is
  what \<^verbatim>\<open>wbc_to_write_flags(wbc)\<close> answers. The cgroup association of the request
  (\<^verbatim>\<open>bio_associate_blkg_from_page\<close>) touches none of the fields of the state and is
  left out. On the filesystem branch the \<^verbatim>\<open>ssize_t\<close> that \<^verbatim>\<open>direct_IO\<close> answers is
  stored in \<^verbatim>\<open>int ret\<close>, which keeps its low 32 bits; the comparison with the
  \<^verbatim>\<open>unsigned long\<close> \<^verbatim>\<open>PAGE_SIZE\<close> sign-extends that \<^verbatim>\<open>int\<close> to 64 bits.
\<close>

definition raw_swap_writepage ::
  "env \<Rightarrow> req_flag set \<Rightarrow> bio_end_io \<Rightarrow> kstate \<Rightarrow> error + int \<times> kstate" where
  "raw_swap_writepage e wbc end_write_func s =
     (let sis = page_swap_info e in
      if \<not> PG_swapcache (pg s) then Inl VM_BUG_ON
      else if SWP_FS \<in> sis_flags sis then
        (let s = set_page_writeback s;
             s = unlock_page s;
             ret = (ucast (direct_IO e (pg s)) :: 32 word);
             s = ev Ev_direct_IO s;
             r = (if (scast ret :: ulong) = PAGE_SIZE then (0, count_vm_event_PSWPOUT s)
                  else (sint ret, ev Ev_pr_err (ClearPageReclaim (set_page_dirty s))));
             ret = fst r;
             s = snd r;
             s = end_page_writeback s
         in Inr (ret, s))
      else
        (let sector = swap_page_sector (pg s);
             r = call (bdev_write_page e sector) (Ev_bdev_write_page sector) s;
             ret = fst r;
             s = snd r
         in if ret = 0 then Inr (0, count_swpout_vm_event s)
            else
              (let s = get_swap_bio e end_write_func s in
               case req s of
                 None \<Rightarrow>
                   (let s = set_page_dirty s;
                        s = unlock_page s
                    in Inr (- ENOMEM, s))
               | Some bio \<Rightarrow>
                   (let s = s\<lparr>req := Some (bio\<lparr>bi_opf := {REQ_OP_WRITE, REQ_SWAP} \<union> wbc\<rparr>)\<rparr>;
                        s = count_swpout_vm_event s;
                        s = set_page_writeback s;
                        s = unlock_page s;
                        s = submit_bio s
                    in Inr (0, s)))))"

text \<open>
  \<^verbatim>\<open>swap_writepage\<close>. The cycle counters of the latency profile
  (\<^verbatim>\<open>get_cycles_start\<close>, \<^verbatim>\<open>accum_adc_time_stat\<close>) touch neither the page nor the
  request and are left out.
\<close>

definition swap_writepage :: "env \<Rightarrow> req_flag set \<Rightarrow> kstate \<Rightarrow> error + int \<times> kstate" where
  "swap_writepage e wbc s =
     (let r = try_to_free_swap e (pg s);
          s = ev Ev_try_to_free_swap (s\<lparr>pg := snd r\<rparr>)
      in if fst r then Inr (0, unlock_page s)
         else
           (let r = call (frontswap_store e) Ev_frontswap_store s;
                s = snd r
            in if fst r = 0 then
                 (let s = set_page_writeback s;
                      s = unlock_page s;
                      s = end_page_writeback s
                  in Inr (0, s))
               else raw_swap_writepage e wbc END_SWAP_BIO_WRITE s))"

subsection \<open>The read path\<close>

text \<open>
  The loop \<^verbatim>\<open>while (synchronous)\<close>. The request completes in another context: in
  round \<open>i\<close> the handler has run iff the block layer completed the request after
  \<open>i\<close> rounds. The loop leaves when it reads \<^verbatim>\<open>bi_private\<close> as \<^verbatim>\<open>NULL\<close>;
  otherwise it polls, and suspends in \<^verbatim>\<open>io_schedule\<close> when the poll found nothing.
  A request that never completes keeps the caller in the loop: the value \<open>None\<close>.
\<close>

partial_function (option) poll_wait :: "env \<Rightarrow> nat \<Rightarrow> kstate \<Rightarrow> kstate option" where
  "poll_wait e i s =
     (let s = (if completes_after e = Some i then bio_endio e (completion_status e) s else s);
          s = ev (Ev_set_current_state TASK_UNINTERRUPTIBLE) s
      in if (case req s of None \<Rightarrow> True | Some bio \<Rightarrow> bi_private bio = None) then Some s
         else
           (let s = ev Ev_blk_poll s;
                s = (if \<not> blk_poll e i then ev Ev_io_schedule s else s)
            in poll_wait e (Suc i) s))"

declare poll_wait.simps [code]

text \<open>
  The text that \<^verbatim>\<open>swap_readpage\<close> and \<^verbatim>\<open>swap_readpage_async\<close> share word for word:
  from \<^verbatim>\<open>psi_memstall_enter\<close> to the \<^verbatim>\<open>return\<close>.
\<close>

definition swap_read_io :: "env \<Rightarrow> bool \<Rightarrow> kstate \<Rightarrow> (int \<times> kstate) option" where
  "swap_read_io e synchronous s =
     (let sis = page_swap_info e;
          s = ev Ev_psi_memstall_enter s
      in if SWP_FS \<in> sis_flags sis then
           (let r = call (readpage e) Ev_readpage s;
                ret = fst r;
                s = snd r;
                s = (if ret = 0 then count_vm_event_PSWPIN s else s)
            in Some (ret, ev Ev_psi_memstall_leave s))
         else
           (let sector = swap_page_sector (pg s);
                r = call (bdev_read_page e sector) (Ev_bdev_read_page sector) s;
                ret = fst r;
                s = snd r
            in if ret = 0 then
                 (let l = trylock_page s;
                      s = snd l;
                      s = (if fst l then unlock_page (swap_slot_free_notify e s) else s);
                      s = count_vm_event_PSWPIN s
                  in Some (ret, ev Ev_psi_memstall_leave s))
               else
                 (let s = get_swap_bio e END_SWAP_BIO_READ s in
                  case req s of
                    None \<Rightarrow>
                      (let s = unlock_page s
                       in Some (- ENOMEM, ev Ev_psi_memstall_leave s))
                  | Some bio \<Rightarrow>
                      (let bio = bio\<lparr>bi_opf := {REQ_OP_READ}\<rparr>;
                           s = s\<lparr>req := Some bio\<rparr>;
                           s = (if synchronous then
                                  (let bio = bio\<lparr>bi_opf := bi_opf bio \<union> {REQ_HIPRI}\<rparr>;
                                       s = ev (Ev_get_task_struct (current_task e)) s;
                                       bio = bio\<lparr>bi_private := Some (current_task e)\<rparr>
                                   in s\<lparr>req := Some bio\<rparr>)
                                else s);
                           s = count_vm_event_PSWPIN s;
                           s = bio_get s;
                           s = submit_bio s
                       in case (if synchronous then poll_wait e 0 s else Some s) of
                            None \<Rightarrow> None
                          | Some s \<Rightarrow>
                              (let s = ev (Ev_set_current_state TASK_RUNNING) s;
                                   s = bio_put s
                               in Some (0, ev Ev_psi_memstall_leave s))))))"

definition swap_readpage :: "env \<Rightarrow> bool \<Rightarrow> kstate \<Rightarrow> (error + int \<times> kstate) option" where
  "swap_readpage e synchronous s =
     (if (\<not> PG_swapcache (pg s) \<and> \<not> synchronous) \<or> \<not> PG_locked (pg s) \<or> PG_uptodate (pg s)
      then Some (Inl VM_BUG_ON)
      else
        (let r = call (frontswap_load e) Ev_frontswap_load s;
             s = snd r
         in if fst r = 0 then Some (Inr (0, s))
            else map_option Inr (swap_read_io e synchronous s)))"

definition swap_readpage_async :: "env \<Rightarrow> kstate \<Rightarrow> (error + int \<times> kstate) option" where
  "swap_readpage_async e s =
     (let synchronous = False in
      if \<not> PG_swapcache (pg s) \<or> \<not> PG_locked (pg s) \<or> PG_uptodate (pg s)
      then Some (Inl VM_BUG_ON)
      else
        (let r = call (frontswap_load_async e) Ev_frontswap_load_async s;
             s = snd r
         in if fst r = 0 then Some (Inr (0, s))
            else map_option Inr (swap_read_io e synchronous s)))"

subsection \<open>Events that make the caller wait\<close>

text \<open>
  The calls by which a reader waits for its request: polling the queue, suspending,
  marking itself uninterruptible, taking a reference on itself for the handler, and
  submitting a request that carries a waiting task or asks for polled completion.
\<close>

fun blocking_event :: "event \<Rightarrow> bool" where
  "blocking_event Ev_blk_poll = True"
| "blocking_event Ev_io_schedule = True"
| "blocking_event (Ev_get_task_struct t) = True"
| "blocking_event (Ev_set_current_state st) = (st = TASK_UNINTERRUPTIBLE)"
| "blocking_event (Ev_submit_bio b) = (bi_private b \<noteq> None \<or> REQ_HIPRI \<in> bi_opf b)"
| "blocking_event x = False"

subsection \<open>Sectors used by a transfer\<close>

text \<open>
  The sectors handed to the device's single-page shortcut (\<^verbatim>\<open>bdev_read_page\<close>,
  \<^verbatim>\<open>bdev_write_page\<close>) and the sectors of the requests submitted, as they appear in
  a trace.
\<close>

fun fast_sectors :: "event list \<Rightarrow> sector_t list" where
  "fast_sectors [] = []"
| "fast_sectors (Ev_bdev_write_page sector # evs) = sector # fast_sectors evs"
| "fast_sectors (Ev_bdev_read_page sector # evs) = sector # fast_sectors evs"
| "fast_sectors (x # evs) = fast_sectors evs"

fun bio_sectors :: "event list \<Rightarrow> sector_t list" where
  "bio_sectors [] = []"
| "bio_sectors (Ev_submit_bio b # evs) = bi_sector b # bio_sectors evs"
| "bio_sectors (x # evs) = bio_sectors evs"

text \<open>
  Modelled from the spec: \<^verbatim>\<open>map_swap_page\<close> lives in \<^verbatim>\<open>mm/swapfile.c\<close>, which is
  not part of the sources at hand. It is the "lower-level block-range query" that the
  extent table supports: an extent is "a maximal run of count consecutive logical slots
  starting at slot\_start, mapped to consecutive physical blocks starting at
  block\_start", so a slot inside an extent lies at \<open>block_start + (slot - slot_start)\<close>.
  A slot that no extent covers cannot be assigned to a page; the answer 0 stands for it.
\<close>

fun extent_block :: "swap_extent list \<Rightarrow> ulong \<Rightarrow> sector_t" where
  "extent_block [] offset = 0"
| "extent_block (se # ses) offset =
     (if se_start_page se \<le> offset \<and> unat offset < unat (se_start_page se) + unat (se_nr_pages se)
      then se_start_block se + (offset - se_start_page se)
      else extent_block ses offset)"

definition extent_map :: "swap_info_struct \<Rightarrow> page \<Rightarrow> sector_t \<times> nat" where
  "extent_map sis p = (extent_block (sis_extents sis) (swp_offset (page_private p)), sis_bdev sis)"

subsection \<open>Rounds of the poll loop\<close>

text \<open>
  The calls of \<open>n\<close> rounds of the loop \<^verbatim>\<open>while (synchronous)\<close> in which the
  request is still pending, from round \<open>i\<close> on: the task marks itself
  uninterruptible, polls, and suspends when the poll found nothing.
\<close>

fun poll_rounds :: "env \<Rightarrow> nat \<Rightarrow> nat \<Rightarrow> event list" where
  "poll_rounds e i 0 = []"
| "poll_rounds e i (Suc n) =
     [Ev_set_current_state TASK_UNINTERRUPTIBLE, Ev_blk_poll] @
     (if blk_poll e i then [] else [Ev_io_schedule]) @
     poll_rounds e (Suc i) n"

text \<open>
  The request that a blocking read has submitted for page \<open>p\<close>: built by
  \<^verbatim>\<open>get_swap_bio\<close> with the read handler, marked \<^verbatim>\<open>REQ_HIPRI\<close>, carrying the
  current task, and referenced twice (by the block layer and by the caller).
\<close>

definition submitted_read :: "env \<Rightarrow> page \<Rightarrow> bio" where
  "submitted_read e p =
     \<lparr>bi_sector = push_bit (unat (PAGE_SHIFT - 9)) (fst (map_swap_page e p)),
      bi_bdev = snd (map_swap_page e p), bi_end_io = END_SWAP_BIO_READ,
      bi_private = Some (current_task e), bi_status = 0, bi_opf = {REQ_HIPRI, REQ_OP_READ},
      bi_size = unat PAGE_SIZE * hpage_nr_pages p, bi_cnt = 2\<rparr>"

subsection \<open>Concrete stores, pages and environments\<close>

text \<open>A swap file of four page-sized blocks at physical blocks 100 to 103.\<close>

definition file_sis :: swap_info_struct where
  "file_sis = \<lparr>sis_flags = {SWP_USED}, sis_max = 10, sis_pages = 0, sis_highest_bit = 0,
     sis_extents = [], sis_bdev = 1\<rparr>"

definition four_blocks :: "sector_t \<Rightarrow> sector_t" where
  "four_blocks i = 100 + i"

text \<open>
  The same four pages in a file with 1 KiB blocks (\<^verbatim>\<open>i_blkbits\<close> 10): sixteen blocks
  at physical blocks 400 to 415.
\<close>

definition sixteen_blocks :: "sector_t \<Rightarrow> sector_t" where
  "sixteen_blocks i = 400 + i"

text \<open>The file of four page-sized blocks with the block of slot 2 unmapped.\<close>

definition hole_at_2 :: "sector_t \<Rightarrow> sector_t" where
  "hole_at_2 i = (if i = 2 then 0 else 100 + i)"

text \<open>
  The file of sixteen 1 KiB blocks with block 14, the third block of slot 3, unmapped.
\<close>

definition hole_at_14 :: "sector_t \<Rightarrow> sector_t" where
  "hole_at_14 i = (if i = 14 then 0 else 400 + i)"

text \<open>
  A helper that runs out of memory when it is asked to add the slot \<open>n\<close> and is
  \<^verbatim>\<open>add_swap_extent\<close> otherwise.
\<close>

definition no_memory_at ::
  "ulong \<Rightarrow> swap_info_struct \<Rightarrow> ulong \<Rightarrow> ulong \<Rightarrow> sector_t \<Rightarrow> int \<times> swap_info_struct" where
  "no_memory_at n sis start_page nr_pages start_block =
     (if start_page = n then (- ENOMEM, sis)
      else add_swap_extent sis start_page nr_pages start_block)"

text \<open>A raw block device of 16 slots, with the identity extent.\<close>

definition blk_sis :: swap_info_struct where
  "blk_sis = \<lparr>sis_flags = {SWP_USED, SWP_WRITEOK, SWP_BLKDEV}, sis_max = 16, sis_pages = 15,
     sis_highest_bit = 15,
     sis_extents = [\<lparr>se_start_page = 0, se_nr_pages = 16, se_start_block = 0\<rparr>],
     sis_bdev = 1\<rparr>"

text \<open>A locked swap-cache page assigned slot 5.\<close>

definition page5 :: page where
  "page5 = \<lparr>PG_locked = True, PG_writeback = False, PG_uptodate = False, PG_error = False,
     PG_dirty = False, PG_reclaim = True, PG_swapcache = True, PageTransHuge = False,
     page_private = \<lparr>swp_type = 0, swp_offset = 5\<rparr>\<rparr>"

definition state5 :: kstate where
  "state5 = \<lparr>pg = page5, req = None, PSWPOUT = 0, PSWPIN = 0, THP_SWPOUT = 0, trace = []\<rparr>"

text \<open>
  An environment in which every delegate declines and leaves the page as it is, so that
  transfers take the generic request path; requests can be allocated, the device has a
  slot-free hook, the slot has one reference, and a blocking read completes with an I/O
  error (\<^verbatim>\<open>BLK_STS_IOERR\<close>, 10) after two rounds of polling.
\<close>

definition keep :: "page \<Rightarrow> bool \<times> page" where
  "keep p = (False, p)"

definition refuse :: "page \<Rightarrow> int \<times> page" where
  "refuse p = (- 1, p)"

definition short_write :: "page \<Rightarrow> 64 word" where
  "short_write p = 0"

definition refuse_at :: "sector_t \<Rightarrow> page \<Rightarrow> int \<times> page" where
  "refuse_at sector p = (- 95, p)"

definition one_ref :: "swp_entry \<Rightarrow> int" where
  "one_ref entry = 1"

definition never_found :: "nat \<Rightarrow> bool" where
  "never_found i = False"

definition blk_env :: env where
  "blk_env = \<lparr>page_swap_info = blk_sis, try_to_free_swap = keep, frontswap_store = refuse,
     frontswap_load = refuse, frontswap_load_async = refuse, direct_IO = short_write,
     readpage = refuse, bdev_write_page = refuse_at, bdev_read_page = refuse_at,
     bio_alloc = True, map_swap_page = extent_map blk_sis, swap_count = one_ref,
     has_slot_free_notify = True, current_task = 7, completes_after = Some 2,
     completion_status = 10, blk_poll = never_found\<rparr>"

text \<open>The same environment with a front-end cache that has the page.\<close>

definition accept :: "page \<Rightarrow> int \<times> page" where
  "accept p = (0, p)"

definition hit_env :: env where
  "hit_env = blk_env\<lparr>frontswap_load := accept, frontswap_load_async := accept\<rparr>"

text \<open>
  An environment in which the delegates take the transfer and unlock the page, as
  \<^verbatim>\<open>bdev_read_page\<close>, \<^verbatim>\<open>bdev_write_page\<close> and a filesystem's \<^verbatim>\<open>readpage\<close> do on
  success.
\<close>

definition take_unlock :: "page \<Rightarrow> int \<times> page" where
  "take_unlock p = (0, p\<lparr>PG_locked := False\<rparr>)"

definition take_unlock_at :: "sector_t \<Rightarrow> page \<Rightarrow> int \<times> page" where
  "take_unlock_at sector p = (0, p\<lparr>PG_locked := False\<rparr>)"

definition fast_env :: env where
  "fast_env = blk_env\<lparr>readpage := take_unlock, bdev_write_page := take_unlock_at,
     bdev_read_page := take_unlock_at\<rparr>"

text \<open>
  A store on a filesystem (swap over NFS) whose \<^verbatim>\<open>readpage\<close> answers an error and
  leaves the page as it is.
\<close>

definition nfs_env :: env where
  "nfs_env = blk_env\<lparr>page_swap_info := blk_sis\<lparr>sis_flags := {SWP_USED, SWP_WRITEOK, SWP_FS}\<rparr>\<rparr>"

text \<open>The state in which the write of \<open>page5\<close> has been submitted.\<close>

definition submitted_write :: kstate where
  "submitted_write =
     (case swap_writepage blk_env {} state5 of
        Inl err \<Rightarrow> state5
      | Inr r \<Rightarrow> snd r)"

text \<open>The state in which the write of \<open>page5\<close> has been submitted and has failed.\<close>

definition failed_write :: kstate where
  "failed_write =
     (case swap_writepage blk_env {} state5 of
        Inl err \<Rightarrow> state5
      | Inr r \<Rightarrow> bio_endio blk_env 10 (snd r))"

text \<open>A read request for \<open>page5\<close> with a waiting task, failed and successful.\<close>

definition read_bio :: "8 word \<Rightarrow> bio" where
  "read_bio status = \<lparr>bi_sector = 40, bi_bdev = 1, bi_end_io = END_SWAP_BIO_READ,
     bi_private = Some 7, bi_status = status, bi_opf = {REQ_OP_READ, REQ_HIPRI},
     bi_size = 4096, bi_cnt = 2\<rparr>"

definition reading :: "8 word \<Rightarrow> kstate" where
  "reading status = state5\<lparr>req := Some (read_bio status)\<rparr>"

section \<open>Properties\<close>

subsection \<open>Arithmetic on sectors\<close>

lemma unat_plus_small:
  fixes b :: sector_t
  assumes "unat b + 3 < 2 ^ 64"
  shows "unat (b + 1) = unat b + 1" "unat (b + 2) = unat b + 2" "unat (b + 3) = unat b + 3"
  using assms by (simp_all add: unat_add_lem [THEN iffD1])

lemma unat_ucast_uint_ulong: "unat (ucast (w :: uint) :: ulong) = unat w"
proof -
  have "unat w < 2 ^ 32" using unsigned_less [of w] by simp
  then have "unat w < 2 ^ 64" by simp
  then have "take_bit 64 (unat w) = unat w" by (rule take_bit_nat_eq_self)
  then show ?thesis by (simp add: unsigned_ucast_eq)
qed

lemma unat_succ_uint:
  fixes x y :: uint
  assumes "x < y"
  shows "unat (x + 1) = unat x + 1"
proof -
  have "unat x < unat y" using assms by (simp add: word_less_nat_alt)
  moreover have "unat y < 2 ^ 32" using unsigned_less [of y] by simp
  ultimately have "unat x + unat (1 :: uint) < 2 ^ LENGTH(32)" by simp
  then show ?thesis by (simp add: unat_add_lem [THEN iffD1])
qed

lemma unat_of_nat64: "x < 2 ^ 64 \<Longrightarrow> unat (of_nat x :: sector_t) = x"
  by (simp add: unat_of_nat)

lemma blocks_per_page_unat:
  fixes blkbits :: uint
  assumes "unat blkbits \<le> 12"
  shows "unat (ucast (drop_bit (unat blkbits) PAGE_SIZE) :: uint) = 2 ^ (12 - unat blkbits)"
proof -
  define n where "n = unat blkbits"
  have n: "n \<le> 12" using assms by (simp add: n_def)
  have "unat (drop_bit n PAGE_SIZE) = drop_bit n (4096 :: nat)"
    by (simp add: unat_drop_bit_eq PAGE_SIZE_def PAGE_SHIFT_def)
  also have "\<dots> = 2 ^ 12 div 2 ^ n" by (simp add: drop_bit_eq_div)
  also have "\<dots> = 2 ^ (12 - n)" using n by (simp add: power_diff)
  finally have d: "unat (drop_bit n PAGE_SIZE) = 2 ^ (12 - n)" .
  have "(2 :: nat) ^ (12 - n) \<le> 2 ^ 12" by (rule power_increasing) simp_all
  then have small: "unat (drop_bit n PAGE_SIZE) < 2 ^ 32" using d by simp
  have "unat (ucast (drop_bit n PAGE_SIZE) :: uint) = take_bit 32 (unat (drop_bit n PAGE_SIZE))"
    by (simp add: unsigned_ucast_eq)
  also have "\<dots> = unat (drop_bit n PAGE_SIZE)"
    using small by (simp add: take_bit_nat_eq_self)
  finally show ?thesis using d by (simp add: n_def)
qed

lemma blocks_per_page_mask:
  fixes bpp :: uint
  assumes b: "unat bpp = 2 ^ k" and k: "k \<le> 12"
  shows "(ucast (bpp - 1) :: sector_t) = mask k"
proof -
  have "bpp = of_nat (unat bpp)" by simp
  also have "\<dots> = 2 ^ k" by (simp add: b)
  finally have "bpp - 1 = mask k" by (simp add: mask_eq_exp_minus_1)
  then have "(ucast (bpp - 1) :: sector_t) = mask (min LENGTH(32) k)"
    by (simp add: ucast_mask_eq)
  also have "min LENGTH(32) k = k" using k by simp
  finally show ?thesis .
qed

lemma aligned_multiple:
  fixes bpp :: uint
  assumes b: "unat bpp = 2 ^ k" and k: "k \<le> 12" and c: "c * 2 ^ k < 2 ^ 64"
  shows "(of_nat (c * 2 ^ k) :: sector_t) AND ucast (bpp - 1) = 0"
proof -
  have "unat (of_nat (c * 2 ^ k) :: sector_t) = c * 2 ^ k"
    using c by (rule unat_of_nat64)
  then have "2 ^ k dvd unat (of_nat (c * 2 ^ k) :: sector_t)" by simp
  then have "(of_nat (c * 2 ^ k) :: sector_t) AND mask k = 0"
    by (simp only: and_mask_dvd_nat)
  then show ?thesis by (simp only: blocks_per_page_mask [OF b k])
qed

lemma drop_multiple:
  assumes c: "c * 2 ^ k < 2 ^ 64"
  shows "drop_bit k (of_nat (c * 2 ^ k) :: sector_t) = of_nat c"
proof -
  have "c \<le> c * 2 ^ k" by simp
  with c have c64: "c < 2 ^ 64" by linarith
  have "unat (drop_bit k (of_nat (c * 2 ^ k) :: sector_t)) = drop_bit k (c * 2 ^ k)"
    by (simp only: unat_drop_bit_eq unat_of_nat64 [OF c])
  also have "\<dots> = c" by (simp add: drop_bit_eq_div)
  finally show ?thesis using c64 by (simp add: word_unat_eq_iff unat_of_nat64)
qed

lemma page_shift_diff:
  fixes blkbits :: uint
  assumes "unat blkbits \<le> 12"
  shows "unat (PAGE_SHIFT - blkbits) = 12 - unat blkbits"
proof -
  have "blkbits \<le> PAGE_SHIFT" using assms by (simp add: word_le_nat_alt PAGE_SHIFT_def)
  then have "unat (PAGE_SHIFT - blkbits) = unat PAGE_SHIFT - unat blkbits" by (rule unat_sub)
  then show ?thesis by (simp add: PAGE_SHIFT_def)
qed

lemma unat_offset:
  fixes q :: sector_t
  assumes "unat q + j < 2 ^ 64"
  shows "unat (q + of_nat j) = unat q + j"
proof -
  have j: "unat (of_nat j :: sector_t) = j" using assms by (intro unat_of_nat64) simp
  have "unat q + unat (of_nat j :: sector_t) < 2 ^ LENGTH(64)" using assms j by simp
  then show ?thesis using j by (simp only: unat_add_lem [THEN iffD1])
qed

lemma offset_mapped:
  fixes c x :: sector_t
  assumes "0 < unat c" and "unat c + unat x < 2 ^ 64"
  shows "c + x \<noteq> 0"
proof -
  have "unat c + unat x < 2 ^ LENGTH(64)" using assms(2) by simp
  then have "unat (c + x) = unat c + unat x" by (simp only: unat_add_lem [THEN iffD1])
  with assms(1) show ?thesis by (metis add_is_0 less_numeral_extra(3) unat_0_iff unsigned_0)
qed

lemma off_page:
  fixes x :: sector_t
  assumes al: "x AND mask k = 0" and j: "0 < j" "j < 2 ^ k" and k: "k \<le> 12"
  shows "(x + of_nat j) AND mask k \<noteq> 0" "x + of_nat j \<noteq> 0"
proof -
  have j64: "j < 2 ^ 64"
  proof -
    have "(2 :: nat) ^ k \<le> 2 ^ 12" using k by (intro power_increasing) simp_all
    with j(2) show ?thesis by simp
  qed
  have uj: "unat (of_nat j :: sector_t) = j" using j64 by (rule unat_of_nat64)
  have u: "unat (x + of_nat j) = (unat x + j) mod 2 ^ 64"
    by (simp only: unat_word_ariths(1) uj) simp
  have "(2 :: nat) ^ k dvd 2 ^ 64" using k by (intro le_imp_power_dvd) simp
  then have "(unat x + j) mod 2 ^ 64 mod 2 ^ k = (unat x + j) mod 2 ^ k"
    by (rule mod_mod_cancel)
  moreover have "2 ^ k dvd unat x" using al by (simp only: and_mask_dvd_nat)
  then have "(unat x + j) mod 2 ^ k = j mod 2 ^ k" by (metis dvd_eq_mod_eq_0 mod_add_left_eq add_0)
  ultimately have m: "unat (x + of_nat j) mod 2 ^ k = j" using u j(2) by simp
  with j(1) have "\<not> 2 ^ k dvd unat (x + of_nat j)" by (simp add: dvd_eq_mod_eq_0)
  then show "(x + of_nat j) AND mask k \<noteq> 0" by (simp add: and_mask_dvd_nat)
  from m j(1) show "x + of_nat j \<noteq> 0" by auto
qed

lemma nonneg_size:
  fixes w :: "64 word"
  assumes "0 \<le> sint w"
  shows "unat w < 2 ^ 63"
proof (rule ccontr)
  assume "\<not> unat w < 2 ^ 63"
  then have "(2 :: nat) ^ 63 \<le> unat w" by simp
  then have "int ((2 :: nat) ^ 63) \<le> int (unat w)" by (rule of_nat_mono)
  then have "2 ^ 63 \<le> uint w" by simp
  then have "signed_take_bit 63 (uint w) \<le> uint w - 2 ^ Suc 63"
    by (rule signed_take_bit_int_less_eq)
  moreover have "uint w < 2 ^ 64" using unsigned_less [of w, where 'a = int] by simp
  moreover have "(2 :: int) ^ Suc 63 = 2 ^ 64" by simp
  ultimately have lt: "signed_take_bit 63 (uint w) < 0" by linarith
  have e: "sint w = signed_take_bit (LENGTH(64) - Suc 0) (uint w)" by (rule sint_uint)
  have "LENGTH(64) - Suc 0 = 63" by simp
  with e have "sint w = signed_take_bit 63 (uint w)" by (simp only:)
  with lt have "sint w < 0" by (simp only:)
  with assms show False by linarith
qed

subsection \<open>The extent helper and the stride check\<close>

lemma add_swap_extent_frame:
  "0 \<le> fst (add_swap_extent sis a n b)"
  "(snd (add_swap_extent sis a n b))\<lparr>sis_extents := []\<rparr> = sis\<lparr>sis_extents := []\<rparr>"
  "sis_max (snd (add_swap_extent sis a n b)) = sis_max sis"
  by (simp_all add: add_swap_extent_def split: list.split)

lemma check_stride_run:
  "check_stride bmap probe first bpp bip = Contiguous \<Longrightarrow>
   unat bip \<le> j \<Longrightarrow> j < unat bpp \<Longrightarrow> bmap (probe + of_nat j) = first + of_nat j"
proof (induction bmap probe first bpp bip rule: check_stride.induct)
  case (1 bmap probe first bpp bip)
  from "1.prems"(2,3) have lt: "bip < bpp" by (simp add: word_less_nat_alt)
  from "1.prems"(1) lt have here: "bmap (probe + ucast bip) \<noteq> 0"
    and there: "bmap (probe + ucast bip) = first + ucast bip"
    and rest: "check_stride bmap probe first bpp (bip + 1) = Contiguous"
    by (auto simp: check_stride.simps [of bmap probe first bpp bip] Let_def split: if_splits)
  show ?case
  proof (cases "j = unat bip")
    case True
    with there show ?thesis by simp
  next
    case False
    with "1.prems"(2) unat_succ_uint [OF lt] have "unat (bip + 1) \<le> j" by simp
    from "1.IH" [OF lt refl here _ rest this "1.prems"(3)] there show ?thesis by simp
  qed
qed

lemma check_stride_hole:
  "check_stride bmap probe first bpp bip = Hole \<Longrightarrow>
   \<exists>j. unat bip \<le> j \<and> j < unat bpp \<and> bmap (probe + of_nat j) = 0 \<and>
       (\<forall>i. unat bip \<le> i \<and> i < j \<longrightarrow> bmap (probe + of_nat i) = first + of_nat i)"
proof (induction bmap probe first bpp bip rule: check_stride.induct)
  case (1 bmap probe first bpp bip)
  from "1.prems" have lt: "bip < bpp"
    by (auto simp: check_stride.simps [of bmap probe first bpp bip] split: if_splits)
  then have ult: "unat bip < unat bpp" by (simp add: word_less_nat_alt)
  show ?case
  proof (cases "bmap (probe + ucast bip) = 0")
    case True
    have "bmap (probe + of_nat (unat bip)) = 0" using True by simp
    with ult show ?thesis by (intro exI [of _ "unat bip"]) auto
  next
    case here: False
    with "1.prems" lt have there: "bmap (probe + ucast bip) = first + ucast bip"
      and rest: "check_stride bmap probe first bpp (bip + 1) = Hole"
      by (auto simp: check_stride.simps [of bmap probe first bpp bip] Let_def split: if_splits)
    from "1.IH" [OF lt refl here _ rest] there obtain j where
      j: "unat (bip + 1) \<le> j" "j < unat bpp" "bmap (probe + of_nat j) = 0"
        "\<forall>i. unat (bip + 1) \<le> i \<and> i < j \<longrightarrow> bmap (probe + of_nat i) = first + of_nat i"
      by auto
    have s: "unat (bip + 1) = unat bip + 1" by (rule unat_succ_uint [OF lt])
    have "\<forall>i. unat bip \<le> i \<and> i < j \<longrightarrow> bmap (probe + of_nat i) = first + of_nat i"
    proof (intro allI impI)
      fix i assume i: "unat bip \<le> i \<and> i < j"
      show "bmap (probe + of_nat i) = first + of_nat i"
      proof (cases "i = unat bip")
        case True
        with there show ?thesis by simp
      next
        case False
        with i s have "unat (bip + 1) \<le> i \<and> i < j" by simp
        with j(4) show ?thesis by blast
      qed
    qed
    moreover have "unat bip \<le> j" using j(1) s by simp
    ultimately show ?thesis using j(2,3) by blast
  qed
qed

lemma check_stride_hole_intro:
  "unat bip \<le> j \<Longrightarrow> j < unat bpp \<Longrightarrow> bmap (probe + of_nat j) = 0 \<Longrightarrow>
   (\<And>i. unat bip \<le> i \<Longrightarrow> i < j \<Longrightarrow>
      bmap (probe + of_nat i) = first + of_nat i \<and> first + of_nat i \<noteq> 0) \<Longrightarrow>
   check_stride bmap probe first bpp bip = Hole"
proof (induction bmap probe first bpp bip rule: check_stride.induct)
  case (1 bmap probe first bpp bip)
  from "1.prems"(1,2) have lt: "bip < bpp" by (simp add: word_less_nat_alt)
  show ?case
  proof (cases "j = unat bip")
    case True
    with "1.prems"(3) have "bmap (probe + ucast bip) = 0" by simp
    with lt show ?thesis by (simp add: check_stride.simps [of bmap probe first bpp bip])
  next
    case False
    with "1.prems"(1) have bj: "unat bip < j" by simp
    from "1.prems"(4) [OF le_refl bj, unfolded of_nat_unat]
    have here: "bmap (probe + ucast bip) = first + ucast bip" "first + ucast bip \<noteq> 0"
      by blast+
    have s: "unat (bip + 1) = unat bip + 1" by (rule unat_succ_uint [OF lt])
    have "check_stride bmap probe first bpp (bip + 1) = Hole"
    proof (rule "1.IH" [OF lt refl])
      show "bmap (probe + ucast bip) \<noteq> 0" using here by simp
      show "\<not> bmap (probe + ucast bip) \<noteq> first + ucast bip" using here(1) by simp
      show "unat (bip + 1) \<le> j" using s bj by simp
      show "j < unat bpp" by (rule "1.prems"(2))
      show "bmap (probe + of_nat j) = 0" by (rule "1.prems"(3))
      fix i
      assume "unat (bip + 1) \<le> i" "i < j"
      with s "1.prems"(4) [of i]
      show "bmap (probe + of_nat i) = first + of_nat i \<and> first + of_nat i \<noteq> 0"
        by simp
    qed
    with lt here show ?thesis
      by (simp add: check_stride.simps [of bmap probe first bpp bip] Let_def)
  qed
qed

lemma check_stride_contiguous:
  "(\<And>j. unat bip \<le> j \<Longrightarrow> j < unat bpp \<Longrightarrow>
      bmap (probe + of_nat j) = first + of_nat j \<and> first + of_nat j \<noteq> 0) \<Longrightarrow>
   check_stride bmap probe first bpp bip = Contiguous"
proof (induction bmap probe first bpp bip rule: check_stride.induct)
  case (1 bmap probe first bpp bip)
  show ?case
  proof (cases "bip < bpp")
    case False
    then show ?thesis by (simp add: check_stride.simps [of bmap probe first bpp bip])
  next
    case lt: True
    then have "unat bip < unat bpp" by (simp add: word_less_nat_alt)
    from "1.prems" [OF le_refl this, unfolded of_nat_unat]
    have here: "bmap (probe + ucast bip) = first + ucast bip" "first + ucast bip \<noteq> 0"
      by blast+
    have "check_stride bmap probe first bpp (bip + 1) = Contiguous"
    proof (rule "1.IH" [OF lt refl])
      show "bmap (probe + ucast bip) \<noteq> 0" using here by simp
      show "\<not> bmap (probe + ucast bip) \<noteq> first + ucast bip" using here(1) by simp
      fix j
      assume "unat (bip + 1) \<le> j" "j < unat bpp"
      with unat_succ_uint [OF lt] "1.prems" [of j]
      show "bmap (probe + of_nat j) = first + of_nat j \<and> first + of_nat j \<noteq> 0"
        by simp
    qed
    with lt here show ?thesis
      by (simp add: check_stride.simps [of bmap probe first bpp bip] Let_def)
  qed
qed

subsection \<open>Activation of four contiguous blocks\<close>

lemma contiguous_step:
  fixes blkbits bpp :: uint and k b m :: nat
  assumes blk: "unat blkbits \<le> 12" and k: "k = 12 - unat blkbits" and bpp: "unat bpp = 2 ^ k"
    and map: "\<And>i. i < 4 * 2 ^ k \<Longrightarrow> bmap (of_nat i) = of_nat (b * 2 ^ k + i)"
    and b0: "0 < b" and nw: "(b + 4) * 2 ^ k \<le> 2 ^ 64"
    and size: "4 * 2 ^ k \<le> unat last_block"
    and max: "4 \<le> unat (sis_max (scan_sis st))"
    and m: "m < 4" and probe: "probe_block st = of_nat (m * 2 ^ k)"
    and pno: "page_no st = of_nat m"
  shows "activate_loop add_swap_extent bmap blkbits bpp last_block span st =
         activate_loop add_swap_extent bmap blkbits bpp last_block span
           (st\<lparr>probe_block := of_nat (Suc m * 2 ^ k),
               page_no := of_nat (Suc m),
               lowest_block := (if m \<noteq> 0 \<and> of_nat (b + m) < lowest_block st
                                then of_nat (b + m) else lowest_block st),
               highest_block := (if m \<noteq> 0 \<and> highest_block st < of_nat (b + m)
                                 then of_nat (b + m) else highest_block st),
               nr_extents := nr_extents st +
                 fst (add_swap_extent (scan_sis st) (of_nat m) 1 (of_nat (b + m))),
               scan_sis := snd (add_swap_extent (scan_sis st) (of_nat m) 1 (of_nat (b + m)))\<rparr>)"
proof -
  define B :: nat where "B = 2 ^ k"
  have B1: "1 \<le> B" by (simp add: B_def)
  have kle: "k \<le> 12" using k by simp
  have B4096: "B \<le> 4096"
  proof -
    have "(2 :: nat) ^ k \<le> 2 ^ 12" using kle by (intro power_increasing) simp_all
    then show ?thesis by (simp add: B_def)
  qed
  have l64: "unat last_block < 2 ^ 64" using unsigned_less [of last_block] by simp
  have nwB: "(b + 4) * B \<le> 2 ^ 64" using nw by (simp add: B_def)
  have sizeB: "4 * B \<le> unat last_block" using size by (simp add: B_def)
  have ub: "(ucast bpp :: sector_t) = of_nat B"
  proof -
    have "(ucast bpp :: sector_t) = of_nat (unat bpp)" by simp
    then show ?thesis by (simp only: bpp B_def)
  qed
  have mB: "Suc m * B \<le> 4 * B" using m by (intro mult_le_mono1) simp
  have next64: "Suc m * B < 2 ^ 64" using mB sizeB l64 by linarith
  have pB: "probe_block st = of_nat (m * B)" by (simp only: probe B_def)
  have np: "probe_block st + ucast bpp = of_nat (Suc m * B)"
    by (simp only: pB ub of_nat_add [symmetric] mult_Suc add.commute)
  have c1: "probe_block st + ucast bpp \<le> last_block"
  proof -
    have "unat (of_nat (Suc m * B) :: sector_t) = Suc m * B"
      using next64 by (rule unat_of_nat64)
    then have "unat (probe_block st + ucast bpp) \<le> unat last_block"
      unfolding np using mB sizeB by linarith
    then show ?thesis by (simp only: word_le_nat_alt)
  qed
  have um: "unat (of_nat m :: ulong) = m" using m by (simp add: unat_of_nat)
  have c2: "page_no st < ucast (sis_max (scan_sis st))"
    using max m by (simp add: pno word_less_nat_alt um unat_ucast_uint_ulong)
  have run64: "(b + m) * B + j < 2 ^ 64" if "j < B" for j
  proof -
    have "(b + m) * B + j < (b + m) * B + B" using that by simp
    also have "\<dots> = (b + Suc m) * B" by (simp add: algebra_simps)
    also have "\<dots> \<le> (b + 4) * B" using m by (intro mult_le_mono1) simp
    finally show ?thesis using nwB by linarith
  qed
  have pos: "0 < (b + m) * B + j" for j using b0 B1 by simp
  have at: "bmap (probe_block st + of_nat j) = of_nat ((b + m) * B + j)" if "j < B" for j
  proof -
    have "m * B + j < m * B + B" using that by simp
    also have "\<dots> = Suc m * B" by simp
    also note mB
    finally have "m * B + j < 4 * B" .
    then have "bmap (of_nat (m * B + j)) = of_nat (b * B + (m * B + j))"
      using map [of "m * B + j"] by (simp only: B_def)
    moreover have "b * B + (m * B + j) = (b + m) * B + j" by (simp add: algebra_simps)
    moreover have "probe_block st + of_nat j = of_nat (m * B + j)"
      by (simp only: pB of_nat_add)
    ultimately show ?thesis by (simp only:)
  qed
  have nz: "(of_nat ((b + m) * B + j) :: sector_t) \<noteq> 0" if "j < B" for j
  proof -
    have "unat (of_nat ((b + m) * B + j) :: sector_t) = (b + m) * B + j"
      using run64 [OF that] by (rule unat_of_nat64)
    with pos [of j] show ?thesis by (metis less_numeral_extra(3) unat_0_iff unsigned_0)
  qed
  have fb: "bmap (probe_block st) = of_nat ((b + m) * B)"
    using at [of 0] B1 by (simp del: of_nat_add of_nat_mult)
  have fb0: "bmap (probe_block st) \<noteq> 0"
    using nz [of 0] B1 by (simp add: fb del: of_nat_add of_nat_mult)
  have al: "\<not> bmap (probe_block st) AND ucast (bpp - 1) \<noteq> 0"
  proof -
    have "(b + m) * 2 ^ k < 2 ^ 64" using run64 [of 0] B1 by (simp add: B_def)
    from aligned_multiple [OF bpp kle this] show ?thesis by (simp only: fb B_def simp_thms)
  qed
  have cs: "check_stride bmap (probe_block st) (bmap (probe_block st)) bpp 1 = Contiguous"
  proof (rule check_stride_contiguous)
    fix j
    assume "unat (1 :: uint) \<le> j" "j < unat bpp"
    then have j: "j < B" by (simp add: bpp B_def)
    have "bmap (probe_block st) + of_nat j = of_nat ((b + m) * B + j)"
      by (simp only: fb of_nat_add)
    then show "bmap (probe_block st + of_nat j) = bmap (probe_block st) + of_nat j \<and>
          bmap (probe_block st) + of_nat j \<noteq> 0"
      using at [OF j] nz [OF j] by (simp only: simp_thms)
  qed
  have sh: "drop_bit (unat (PAGE_SHIFT - blkbits)) (bmap (probe_block st)) = of_nat (b + m)"
  proof -
    have "(b + m) * 2 ^ k < 2 ^ 64" using run64 [of 0] B1 by (simp add: B_def)
    from drop_multiple [OF this] show ?thesis
      by (simp only: fb B_def page_shift_diff [OF blk] k [symmetric])
  qed
  have p0: "page_no st \<noteq> 0 \<longleftrightarrow> m \<noteq> 0"
    using um by (metis pno unat_0_iff unsigned_0 of_nat_0)
  have r0: "\<not> fst (add_swap_extent (scan_sis st) (of_nat m) 1 (of_nat (b + m))) < 0"
    using add_swap_extent_frame(1) [of "scan_sis st" "of_nat m" 1 "of_nat (b + m)"] by simp
  have pn: "page_no st + 1 = of_nat (Suc m)" by (simp add: pno)
  show ?thesis
    apply (subst activate_loop.simps)
    apply (simp only: c1 c1 [unfolded np B_def] c2 fb0 al cs r0 Let_def sh p0 np pn B_def
             simp_thms if_True if_False stride.case)
    apply (simp only: pno r0 if_False)
    done
qed


text \<open>
  C1. Let the block size be at most the page size, so that a page holds \<open>2 ^ k\<close>
  blocks with \<open>k = 12 - i_blkbits\<close>, and let the blocks of slots 0 to 3 of the file
  (blocks 0 to \<open>4 * 2 ^ k - 1\<close>) be mapped to the physical blocks of four consecutive
  pages \<open>b\<close> to \<open>b + 3\<close>, contiguous and page-aligned (block \<open>i\<close> lies at
  \<open>b * 2 ^ k + i\<close>, with \<open>b\<close> not 0). When the scan covers exactly these four slots
  (the file has no fifth page of blocks, or the store's maximum is 4) on a store without
  extents, activation returns 1 extent, covering slots 0 to 3 from page \<open>b\<close>, reports
  the span 3 (the pages of slots 1 to 3; slot 0 is left out), and sets the slot count to
  4 (3 usable pages, highest slot 3).
\<close>

theorem activate_four_contiguous_blocks:
  fixes blkbits :: uint and b :: nat
  assumes blk: "unat blkbits \<le> 12"
    and map: "\<forall>i < 4 * 2 ^ (12 - unat blkbits).
                bmap (of_nat i) = of_nat (b * 2 ^ (12 - unat blkbits) + i)"
    and b0: "0 < b" and nw: "(b + 4) * 2 ^ (12 - unat blkbits) \<le> 2 ^ 64"
    and size: "4 * 2 ^ (12 - unat blkbits) \<le> unat (signed_drop_bit (unat blkbits) i_size)"
    and max: "4 \<le> unat (sis_max sis)"
    and stop: "unat (signed_drop_bit (unat blkbits) i_size) < 5 * 2 ^ (12 - unat blkbits) \<or>
               sis_max sis = 4"
    and ext: "sis_extents sis = []"
  shows "generic_swapfile_activate add_swap_extent sis blkbits i_size bmap span =
     Some \<lparr>act_ret = 1,
           act_sis = sis\<lparr>sis_max := 4, sis_pages := 3, sis_highest_bit := 3,
                        sis_extents := [\<lparr>se_start_page = 0, se_nr_pages = 4,
                                         se_start_block = of_nat b\<rparr>]\<rparr>,
           act_span = 3\<rparr>"
proof -
  define k where "k = 12 - unat blkbits"
  define bpp where "bpp = (ucast (drop_bit (unat blkbits) PAGE_SIZE) :: uint)"
  define L where "L = signed_drop_bit (unat blkbits) i_size"
  define wb where "wb = (of_nat b :: sector_t)"
  have bpp: "unat bpp = 2 ^ k"
    unfolding bpp_def k_def using blk by (rule blocks_per_page_unat)
  have mp: "\<And>i. i < 4 * 2 ^ k \<Longrightarrow> bmap (of_nat i) = of_nat (b * 2 ^ k + i)"
    using map by (simp only: k_def)
  have nwk: "(b + 4) * 2 ^ k \<le> 2 ^ 64" using nw by (simp only: k_def)
  have sz: "4 * 2 ^ k \<le> unat L" using size by (simp only: k_def L_def)
  have "b + 4 \<le> (b + 4) * 2 ^ k" by simp
  with nwk have b64: "b + 4 \<le> 2 ^ 64" by linarith
  then have uwb: "unat wb = b" by (simp add: wb_def unat_of_nat)
  then have wb3: "unat wb + 3 < 2 ^ 64" using b64 by simp
  note u = unat_plus_small [OF wb3]
  have m1: "(- 1 :: sector_t) = 18446744073709551615" by simp
  have cmp: "1 + wb < 18446744073709551615" "\<not> 2 + wb < 1 + wb" "\<not> 3 + wb < 1 + wb"
    "0 < 1 + wb" "1 + wb < 2 + wb" "2 + wb < 3 + wb"
    using wb3 by (simp_all add: word_less_nat_alt u add.commute [of _ wb])
  let ?loop = "activate_loop add_swap_extent bmap blkbits bpp L span"
  define st0 where "st0 = \<lparr>probe_block = of_nat (0 * 2 ^ k), page_no = of_nat 0,
      lowest_block = - 1, highest_block = 0, nr_extents = 0, scan_sis = sis\<rparr>"
  define st1 where "st1 = \<lparr>probe_block = of_nat (Suc 0 * 2 ^ k), page_no = of_nat (Suc 0),
      lowest_block = - 1, highest_block = 0, nr_extents = 1,
      scan_sis = sis\<lparr>sis_extents := [\<lparr>se_start_page = 0, se_nr_pages = 1,
                                       se_start_block = wb\<rparr>]\<rparr>\<rparr>"
  define st2 where "st2 = \<lparr>probe_block = of_nat (Suc (Suc 0) * 2 ^ k),
      page_no = of_nat (Suc (Suc 0)),
      lowest_block = 1 + wb, highest_block = 1 + wb, nr_extents = 1,
      scan_sis = sis\<lparr>sis_extents := [\<lparr>se_start_page = 0, se_nr_pages = 2,
                                       se_start_block = wb\<rparr>]\<rparr>\<rparr>"
  define st3 where "st3 = \<lparr>probe_block = of_nat (Suc (Suc (Suc 0)) * 2 ^ k),
      page_no = of_nat (Suc (Suc (Suc 0))),
      lowest_block = 1 + wb, highest_block = 2 + wb, nr_extents = 1,
      scan_sis = sis\<lparr>sis_extents := [\<lparr>se_start_page = 0, se_nr_pages = 3,
                                       se_start_block = wb\<rparr>]\<rparr>\<rparr>"
  define st4 where "st4 = \<lparr>probe_block = of_nat (Suc (Suc (Suc (Suc 0))) * 2 ^ k),
      page_no = of_nat (Suc (Suc (Suc (Suc 0)))),
      lowest_block = 1 + wb, highest_block = 3 + wb, nr_extents = 1,
      scan_sis = sis\<lparr>sis_extents := [\<lparr>se_start_page = 0, se_nr_pages = 4,
                                       se_start_block = wb\<rparr>]\<rparr>\<rparr>"
  note step = contiguous_step [OF blk k_def bpp mp b0 nwk sz, where span = span]
  have "?loop st0 = ?loop st1"
    by (subst step [of st0 0])
       (simp_all add: st0_def st1_def max add_swap_extent_def ext wb_def)
  also have "?loop st1 = ?loop st2"
    by (subst step [of st1 "Suc 0"])
       (simp_all add: st1_def st2_def max add_swap_extent_def wb_def [symmetric] cmp m1)
  also have "?loop st2 = ?loop st3"
    by (subst step [of st2 "Suc (Suc 0)"])
       (simp_all add: st2_def st3_def max add_swap_extent_def wb_def [symmetric] cmp m1)
  also have "?loop st3 = ?loop st4"
    by (subst step [of st3 "Suc (Suc (Suc 0))"])
       (simp_all add: st3_def st4_def max add_swap_extent_def wb_def [symmetric] cmp m1)
  also have "?loop st4 =
     Some \<lparr>act_ret = 1,
           act_sis = sis\<lparr>sis_max := 4, sis_pages := 3, sis_highest_bit := 3,
                        sis_extents := [\<lparr>se_start_page = 0, se_nr_pages = 4,
                                         se_start_block = wb\<rparr>]\<rparr>,
           act_span = 3\<rparr>"
  proof -
    have fin: "\<not> (probe_block st4 + ucast bpp \<le> L \<and>
                 page_no st4 < ucast (sis_max (scan_sis st4)))"
    proof (cases "sis_max sis = 4")
      case True
      then show ?thesis by (simp add: st4_def)
    next
      case False
      with stop have short: "unat L < 5 * 2 ^ k" by (simp add: L_def k_def)
      have "(2 :: nat) ^ k \<le> 2 ^ 12" by (intro power_increasing) (simp_all add: k_def)
      then have f64: "5 * 2 ^ k < (2 :: nat) ^ 64" by simp
      have "(ucast bpp :: sector_t) = of_nat (unat bpp)" by simp
      then have "(ucast bpp :: sector_t) = of_nat (2 ^ k)" by (simp only: bpp)
      then have "probe_block st4 + ucast bpp = of_nat (5 * 2 ^ k)"
        by (simp add: st4_def)
      moreover have "unat (of_nat (5 * 2 ^ k) :: sector_t) = 5 * 2 ^ k"
        using f64 by (rule unat_of_nat64)
      ultimately have "unat (probe_block st4 + ucast bpp) = 5 * 2 ^ k" by (simp only:)
      with short show ?thesis by (simp only: word_le_nat_alt) simp
    qed
    show ?thesis
      apply (subst activate_loop.simps)
      apply (simp only: fin if_False)
      apply (simp add: st4_def Let_def)
      done
  qed
  finally have "?loop st0 = Some \<lparr>act_ret = 1,
           act_sis = sis\<lparr>sis_max := 4, sis_pages := 3, sis_highest_bit := 3,
                        sis_extents := [\<lparr>se_start_page = 0, se_nr_pages = 4,
                                         se_start_block = wb\<rparr>]\<rparr>,
           act_span = 3\<rparr>" .
  then show ?thesis
    by (simp add: generic_swapfile_activate_def Let_def bpp_def L_def st0_def wb_def)
qed

theorem activate_four_contiguous_blocks_witness:
  "unat (12 :: uint) \<le> 12 \<and> unat (10 :: uint) \<le> 12 \<and>
   four_blocks 0 = 100 \<and> four_blocks 3 = 103 \<and>
   sixteen_blocks 0 = 400 \<and> sixteen_blocks 15 = 415 \<and>
   4 \<le> unat (sis_max file_sis) \<and> sis_extents file_sis = [] \<and>
   generic_swapfile_activate add_swap_extent file_sis 12 16384 four_blocks 0 =
     Some \<lparr>act_ret = 1,
           act_sis = file_sis\<lparr>sis_max := 4, sis_pages := 3, sis_highest_bit := 3,
                        sis_extents := [\<lparr>se_start_page = 0, se_nr_pages = 4,
                                         se_start_block = 100\<rparr>]\<rparr>,
           act_span = 3\<rparr> \<and>
   generic_swapfile_activate add_swap_extent file_sis 10 16384 sixteen_blocks 0 =
     Some \<lparr>act_ret = 1,
           act_sis = file_sis\<lparr>sis_max := 4, sis_pages := 3, sis_highest_bit := 3,
                        sis_extents := [\<lparr>se_start_page = 0, se_nr_pages = 4,
                                         se_start_block = 100\<rparr>]\<rparr>,
           act_span = 3\<rparr>"
proof -
  have page_sized: "\<forall>i < 4 * 2 ^ (12 - unat (12 :: uint)).
      four_blocks (of_nat i) = of_nat (100 * 2 ^ (12 - unat (12 :: uint)) + i)"
    by (simp add: four_blocks_def)
  have kib_sized: "\<forall>i < 4 * 2 ^ (12 - unat (10 :: uint)).
      sixteen_blocks (of_nat i) = of_nat (100 * 2 ^ (12 - unat (10 :: uint)) + i)"
    by (simp add: sixteen_blocks_def)
  have store: "4 \<le> unat (sis_max file_sis)" "sis_extents file_sis = []"
    by (simp_all add: file_sis_def)
  have a: "generic_swapfile_activate add_swap_extent file_sis 12 16384 four_blocks 0 =
     Some \<lparr>act_ret = 1,
           act_sis = file_sis\<lparr>sis_max := 4, sis_pages := 3, sis_highest_bit := 3,
                        sis_extents := [\<lparr>se_start_page = 0, se_nr_pages = 4,
                                         se_start_block = of_nat 100\<rparr>]\<rparr>,
           act_span = 3\<rparr>"
    by (rule activate_four_contiguous_blocks [OF _ page_sized _ _ _ store(1) _ store(2)])
       simp_all
  have b: "generic_swapfile_activate add_swap_extent file_sis 10 16384 sixteen_blocks 0 =
     Some \<lparr>act_ret = 1,
           act_sis = file_sis\<lparr>sis_max := 4, sis_pages := 3, sis_highest_bit := 3,
                        sis_extents := [\<lparr>se_start_page = 0, se_nr_pages = 4,
                                         se_start_block = of_nat 100\<rparr>]\<rparr>,
           act_span = 3\<rparr>"
    by (rule activate_four_contiguous_blocks [OF _ kib_sized _ _ _ store(1) _ store(2)])
       simp_all
  show ?thesis using a b store by (simp add: four_blocks_def sixteen_blocks_def)
qed

subsection \<open>Activation of a file with a hole\<close>

lemma inside_not_whole:
  fixes bpp :: uint
  assumes bpp: "unat bpp = 2 ^ k" and k: "k \<le> 12"
    and al: "bmap q AND ucast (bpp - 1) = 0"
    and j: "0 < j" "j < unat bpp"
    and run: "bmap (q + of_nat j) = bmap q + of_nat j"
  shows "\<not> whole_stride bmap bpp (q + of_nat j)"
proof -
  have m: "(ucast (bpp - 1) :: sector_t) = mask k" by (rule blocks_per_page_mask [OF bpp k])
  have "bmap q AND mask k = 0" using al by (simp only: m)
  from off_page(1) [OF this j(1) _ k, of ] j(2) bpp
  have "(bmap q + of_nat j) AND mask k \<noteq> 0" by simp
  then show ?thesis by (simp add: whole_stride_def run m)
qed

lemma strides_between_empty:
  "unat t \<le> unat q \<Longrightarrow> strides_between bmap bpp q t = []"
  by (simp add: strides_between_def)

lemma strides_between_none:
  assumes none: "\<And>i. unat q \<le> i \<Longrightarrow> i < unat m \<Longrightarrow> \<not> whole_stride bmap bpp (of_nat i)"
    and qm: "unat q \<le> unat m" and mt: "unat m \<le> unat t"
  shows "strides_between bmap bpp q t = strides_between bmap bpp m t"
proof -
  have "[unat q..<unat t] = [unat q..<unat m] @ [unat m..<unat t]"
    using qm mt by (metis le_Suc_ex upt_add_eq_append)
  moreover have "filter (whole_stride bmap bpp) (map of_nat [unat q..<unat m]) = []"
    using none by (auto simp: filter_empty_conv)
  ultimately show ?thesis by (simp add: strides_between_def)
qed

lemma strides_between_step:
  fixes q t :: sector_t
  assumes "unat q < unat t"
  shows "strides_between bmap bpp q t =
         (if whole_stride bmap bpp q then [q] else []) @ strides_between bmap bpp (q + 1) t"
proof -
  have "unat t < 2 ^ 64" using unsigned_less [of t] by simp
  with assms have "unat q + unat (1 :: sector_t) < 2 ^ LENGTH(64)" by simp
  then have u: "unat (q + 1) = Suc (unat q)" by (simp add: unat_add_lem [THEN iffD1])
  have "[unat q..<unat t] = unat q # [Suc (unat q)..<unat t]"
    using assms by (rule upt_conv_Cons)
  then show ?thesis by (simp add: strides_between_def u)
qed

lemma strides_between_append:
  assumes "unat q \<le> unat m" "unat m \<le> unat t"
  shows "strides_between bmap bpp q t = strides_between bmap bpp q m @ strides_between bmap bpp m t"
proof -
  have "[unat q..<unat t] = [unat q..<unat m] @ [unat m..<unat t]"
    using assms by (metis le_Suc_ex upt_add_eq_append)
  then show ?thesis by (simp add: strides_between_def)
qed

lemma scan_to_hole:
  fixes bpp :: uint and t :: sector_t
  assumes bpp: "unat bpp = 2 ^ k" and k: "k \<le> 12"
    and max: "\<And>s p b. sis_max (snd (ase s p 1 b)) = sis_max s"
    and fit: "unat t + unat bpp \<le> unat last_block"
    and first: "\<And>x. unat x < unat t \<Longrightarrow> bmap x \<noteq> 0"
    and bad: "bmap t = 0 \<or>
              (bmap t AND ucast (bpp - 1) = 0 \<and> check_stride bmap t (bmap t) bpp 1 = Hole)"
  shows "unat (probe_block st) \<le> unat t \<Longrightarrow>
         unat (page_no st) + length (strides_between bmap bpp (probe_block st) t)
           < unat (sis_max (scan_sis st)) \<Longrightarrow>
         activate_loop ase bmap blkbits bpp last_block span st =
           (let a = add_strides ase bmap blkbits (scan_sis st) (page_no st)
                      (strides_between bmap bpp (probe_block st) t)
            in Some \<lparr>act_ret = (if fst a < 0 then fst a else - EINVAL), act_sis = snd a,
                      act_span = span\<rparr>)"
proof (induction "unat t - unat (probe_block st)" arbitrary: st rule: less_induct)
  case less
  define probe where "probe = probe_block st"
  define pno where "pno = page_no st"
  define sis where "sis = scan_sis st"
  define B where "B = unat bpp"
  note inv = less.prems [folded probe_def pno_def sis_def]
  have B1: "1 \<le> B" by (simp add: B_def bpp)
  have fitB: "unat t + B \<le> unat last_block" using fit by (simp add: B_def)
  have l64: "unat last_block < 2 ^ 64" using unsigned_less [of last_block] by simp
  have ub: "unat (ucast bpp :: sector_t) = B" by (simp add: B_def unat_ucast_uint_ulong)
  have ubw: "(ucast bpp :: sector_t) = of_nat B" by (simp add: B_def)
  have "unat probe + unat (ucast bpp :: sector_t) < 2 ^ LENGTH(64)"
    using inv(1) fitB l64 ub by simp
  then have upb: "unat (probe + ucast bpp) = unat probe + B"
    using ub by (simp add: unat_add_lem [THEN iffD1])
  have pmax: "unat pno < unat (sis_max sis)" using inv(2) by simp
  have cond: "probe + ucast bpp \<le> last_block" "pno < ucast (sis_max sis)"
    using upb inv(1) fitB pmax
    by (simp_all add: word_le_nat_alt word_less_nat_alt unat_ucast_uint_ulong)
  have m: "(ucast (bpp - 1) :: sector_t) = mask k" by (rule blocks_per_page_mask [OF bpp k])
  let ?loop = "activate_loop ase bmap blkbits bpp last_block span"
  let ?bad = "\<lparr>act_ret = - EINVAL, act_sis = sis, act_span = span\<rparr>"
  let ?res = "\<lambda>a. Some \<lparr>act_ret = (if fst a < 0 then fst a else - EINVAL), act_sis = snd a,
                          act_span = span\<rparr>"
  have off: "unat (probe + of_nat j) = unat probe + j" if "j < B" for j
  proof -
    have "unat probe + j < 2 ^ 64" using that inv(1) fitB l64 by simp
    then show ?thesis by (rule unat_offset)
  qed
  show ?case
  proof (cases "unat probe = unat t")
    case True
    then have pt: "probe = t" by (simp add: word_unat_eq_iff)
    have sb: "strides_between bmap bpp probe t = []"
      using True by (simp add: strides_between_empty)
    have "?loop st = Some ?bad"
    proof (cases "bmap t = 0")
      case True
      show ?thesis
        apply (subst activate_loop.simps)
        using cond True
        apply (simp add: probe_def [symmetric] pno_def [symmetric] sis_def [symmetric] Let_def pt)
        done
    next
      case False
      with bad have "bmap t AND ucast (bpp - 1) = 0"
        "check_stride bmap t (bmap t) bpp 1 = Hole" by blast+
      with False show ?thesis
        apply (subst activate_loop.simps)
        using cond
        apply (simp add: probe_def [symmetric] pno_def [symmetric] sis_def [symmetric] Let_def pt)
        done
    qed
    then show ?thesis
      by (simp add: probe_def [symmetric] pno_def [symmetric] sis_def [symmetric] sb Let_def)
  next
    case False
    with inv(1) have lt: "unat probe < unat t" by simp
    have mapped: "bmap probe \<noteq> 0" using lt by (rule first)
    have "unat t < 2 ^ 64" using unsigned_less [of t] by simp
    with lt have "unat probe + unat (1 :: sector_t) < 2 ^ LENGTH(64)" by simp
    then have up1: "unat (probe + 1) = unat probe + 1"
      by (simp add: unat_add_lem [THEN iffD1])
    note step = strides_between_step [OF lt, of bmap bpp]
    let ?next = "st\<lparr>probe_block := probe + 1\<rparr>"
    have reprobe: "?loop ?next = ?res (add_strides ase bmap blkbits sis pno
                      (strides_between bmap bpp probe t))"
      if nw: "\<not> whole_stride bmap bpp probe"
    proof -
      have sb: "strides_between bmap bpp probe t = strides_between bmap bpp (probe + 1) t"
        using step nw by simp
      have "?loop ?next =
           (let a = add_strides ase bmap blkbits (scan_sis ?next) (page_no ?next)
                      (strides_between bmap bpp (probe_block ?next) t)
            in ?res a)"
      proof (rule less.hyps)
        show "unat t - unat (probe_block ?next) < unat t - unat (probe_block st)"
          using up1 lt by (simp add: probe_def)
        show "unat (probe_block ?next) \<le> unat t" using up1 lt by simp
        show "unat (page_no ?next) + length (strides_between bmap bpp (probe_block ?next) t)
                < unat (sis_max (scan_sis ?next))"
          using inv(2) sb by (simp add: pno_def sis_def)
      qed
      then show ?thesis by (simp add: Let_def sb pno_def sis_def)
    qed
    show ?thesis
    proof (cases "bmap probe AND ucast (bpp - 1) \<noteq> 0")
      case True
      then have nw: "\<not> whole_stride bmap bpp probe" by (simp add: whole_stride_def)
      have "?loop st = ?loop ?next"
        apply (subst activate_loop.simps)
        using cond mapped True
        apply (simp add: probe_def [symmetric] pno_def [symmetric] sis_def [symmetric] Let_def)
        done
      with reprobe [OF nw] show ?thesis
        by (simp add: probe_def [symmetric] pno_def [symmetric] sis_def [symmetric] Let_def)
    next
      case aligned: False
      then have al: "bmap probe AND ucast (bpp - 1) = 0" by simp
      show ?thesis
      proof (cases "check_stride bmap probe (bmap probe) bpp 1")
        case Discontiguity
        then have nw: "\<not> whole_stride bmap bpp probe" by (simp add: whole_stride_def)
        have "?loop st = ?loop ?next"
          apply (subst activate_loop.simps)
          using cond mapped aligned Discontiguity
          apply (simp add: probe_def [symmetric] pno_def [symmetric] sis_def [symmetric] Let_def)
          done
        with reprobe [OF nw] show ?thesis
          by (simp add: probe_def [symmetric] pno_def [symmetric] sis_def [symmetric] Let_def)
      next
        case Hole
        from check_stride_hole [OF Hole] obtain j where
          j: "unat (1 :: uint) \<le> j" "j < unat bpp" "bmap (probe + of_nat j) = 0"
            "\<forall>i. unat (1 :: uint) \<le> i \<and> i < j \<longrightarrow>
               bmap (probe + of_nat i) = bmap probe + of_nat i"
          by blast
        have jB: "j < B" using j(2) by (simp add: B_def)
        have "\<not> unat (probe + of_nat j) < unat t" using first j(3) by blast
        then have tj: "unat t \<le> unat probe + j" using off [OF jB] by simp
        have none: "\<not> whole_stride bmap bpp (of_nat i)"
          if i: "unat probe \<le> i" "i < unat t" for i
        proof (cases "i = unat probe")
          case True
          then have "(of_nat i :: sector_t) = probe" by simp
          then show ?thesis using Hole by (simp add: whole_stride_def)
        next
          case False
          define d where "d = i - unat probe"
          have d: "0 < d" "d < j" "i = unat probe + d" using False i tj by (simp_all add: d_def)
          have w: "(of_nat i :: sector_t) = probe + of_nat d" by (simp add: d(3))
          have "bmap (probe + of_nat d) = bmap probe + of_nat d" using j(4) d by simp
          from inside_not_whole [OF bpp k al d(1) _ this] d(2) j(2)
          show ?thesis by (simp add: w)
        qed
        have "strides_between bmap bpp probe t = strides_between bmap bpp t t"
          by (rule strides_between_none [OF none]) (use lt in simp_all)
        then have sb: "strides_between bmap bpp probe t = []"
          by (simp add: strides_between_empty)
        have "?loop st = Some ?bad"
          apply (subst activate_loop.simps)
          using cond mapped aligned Hole
          apply (simp add: probe_def [symmetric] pno_def [symmetric] sis_def [symmetric] Let_def)
          done
        then show ?thesis
          by (simp add: probe_def [symmetric] pno_def [symmetric] sis_def [symmetric] sb Let_def)
      next
        case Contiguous
        have w: "whole_stride bmap bpp probe"
          using mapped al Contiguous by (simp add: whole_stride_def)
        have run: "bmap (probe + of_nat d) = bmap probe + of_nat d" if "0 < d" "d < B" for d
          using check_stride_run [OF Contiguous, of d] that by (simp add: B_def)
        have beyond: "unat probe + B \<le> unat t"
        proof (rule ccontr)
          assume "\<not> unat probe + B \<le> unat t"
          define d where "d = unat t - unat probe"
          have d: "0 < d" "d < B" "unat t = unat probe + d"
            using lt \<open>\<not> unat probe + B \<le> unat t\<close> by (simp_all add: d_def)
          have "t = of_nat (unat t)" by simp
          also have "\<dots> = probe + of_nat d" by (simp only: d(3) of_nat_add of_nat_unat) simp
          finally have t: "t = probe + of_nat d" .
          have bt: "bmap t = bmap probe + of_nat d" unfolding t by (rule run [OF d(1,2)])
          have "bmap probe AND mask k = 0" using al by (simp only: m)
          from off_page [OF this d(1) _ k] d(2) bpp
          have "(bmap probe + of_nat d) AND mask k \<noteq> 0" "bmap probe + of_nat d \<noteq> 0"
            by (simp_all add: B_def)
          with bad show False by (simp add: bt m)
        qed
        have inner: "\<not> whole_stride bmap bpp (of_nat i)"
          if i: "unat (probe + 1) \<le> i" "i < unat (probe + ucast bpp)" for i
        proof -
          define d where "d = i - unat probe"
          have d: "0 < d" "d < B" "i = unat probe + d"
            using i up1 upb by (simp_all add: d_def)
          have wi: "(of_nat i :: sector_t) = probe + of_nat d" by (simp add: d(3))
          from inside_not_whole [OF bpp k al d(1) _ run [OF d(1,2)]] d(2)
          show ?thesis by (simp add: wi B_def)
        qed
        have "strides_between bmap bpp (probe + 1) t = strides_between bmap bpp (probe + ucast bpp) t"
          by (rule strides_between_none [OF inner]) (use up1 upb B1 beyond in simp_all)
        with step w have sb: "strides_between bmap bpp probe t =
                                probe # strides_between bmap bpp (probe + ucast bpp) t"
          by simp
        define fb where "fb = drop_bit (unat (PAGE_SHIFT - blkbits)) (bmap probe)"
        define r where "r = ase sis pno 1 fb"
        have adds: "add_strides ase bmap blkbits sis pno (strides_between bmap bpp probe t) =
                    (if fst r < 0 then r
                     else add_strides ase bmap blkbits (snd r) (pno + 1)
                            (strides_between bmap bpp (probe + ucast bpp) t))"
          by (simp add: sb Let_def fb_def r_def)
        show ?thesis
        proof (cases "fst r < 0")
          case True
          have "?loop st = Some \<lparr>act_ret = fst r, act_sis = snd r, act_span = span\<rparr>"
            apply (subst activate_loop.simps)
            using cond mapped aligned Contiguous True
            apply (simp add: probe_def [symmetric] pno_def [symmetric] sis_def [symmetric]
                     Let_def fb_def [symmetric] r_def [symmetric])
            done
          then show ?thesis
            using True
            by (simp add: probe_def [symmetric] pno_def [symmetric] sis_def [symmetric] adds
                  Let_def)
        next
          case r0: False
          let ?st' = "st\<lparr>probe_block := probe + ucast bpp,
                       page_no := pno + 1,
                       lowest_block := (if pno \<noteq> 0 \<and> fb < lowest_block st
                                        then fb else lowest_block st),
                       highest_block := (if pno \<noteq> 0 \<and> fb > highest_block st
                                         then fb else highest_block st),
                       nr_extents := nr_extents st + fst r,
                       scan_sis := snd r\<rparr>"
          have stp: "?loop st = ?loop ?st'"
            apply (subst activate_loop.simps)
            using cond mapped aligned Contiguous r0
            apply (simp add: probe_def [symmetric] pno_def [symmetric] sis_def [symmetric]
                     Let_def fb_def [symmetric] r_def [symmetric])
            done
          have "unat (sis_max sis) < 2 ^ 32" using unsigned_less [of "sis_max sis"] by simp
          with pmax have "unat pno + unat (1 :: ulong) < 2 ^ LENGTH(64)" by simp
          then have upn: "unat (pno + 1) = unat pno + 1"
            by (simp add: unat_add_lem [THEN iffD1])
          have "?loop ?st' =
             (let a = add_strides ase bmap blkbits (scan_sis ?st') (page_no ?st')
                        (strides_between bmap bpp (probe_block ?st') t)
              in ?res a)"
          proof (rule less.hyps)
            show "unat t - unat (probe_block ?st') < unat t - unat (probe_block st)"
              using upb beyond B1 by (simp add: probe_def)
            show "unat (probe_block ?st') \<le> unat t" using upb beyond by simp
            show "unat (page_no ?st') + length (strides_between bmap bpp (probe_block ?st') t)
                    < unat (sis_max (scan_sis ?st'))"
              using inv(2) sb upn max [of sis pno fb] by (simp add: r_def)
          qed
          then show ?thesis
            using stp r0
            by (simp add: probe_def [symmetric] pno_def [symmetric] sis_def [symmetric] adds
                  Let_def)
        qed
      qed
    qed
  qed
qed

lemma strides_between_snoc:
  fixes q :: sector_t
  assumes "unat q + 1 < 2 ^ 64"
  shows "strides_between bmap bpp 0 (q + 1) =
         strides_between bmap bpp 0 q @ (if whole_stride bmap bpp q then [q] else [])"
proof -
  have "unat q + unat (1 :: sector_t) < 2 ^ LENGTH(64)" using assms by simp
  then have u: "unat (q + 1) = Suc (unat q)" by (simp add: unat_add_lem [THEN iffD1])
  then have lt: "unat q < unat (q + 1)" by simp
  have "strides_between bmap bpp 0 (q + 1) =
        strides_between bmap bpp 0 q @ strides_between bmap bpp q (q + 1)"
    by (rule strides_between_append) (use u in simp_all)
  moreover have "strides_between bmap bpp q (q + 1) =
        (if whole_stride bmap bpp q then [q] else []) @ strides_between bmap bpp (q + 1) (q + 1)"
    by (rule strides_between_step [OF lt])
  ultimately show ?thesis by (simp add: strides_between_empty)
qed

lemma strides_between_taken:
  fixes q :: sector_t and bpp :: uint
  assumes bpp: "unat bpp = 2 ^ k" and k: "k \<le> 12"
    and nw: "unat q + unat bpp < 2 ^ 64"
    and w: "whole_stride bmap bpp q"
  shows "strides_between bmap bpp 0 (q + ucast bpp) = strides_between bmap bpp 0 q @ [q]"
proof -
  define B where "B = unat bpp"
  have B1: "1 \<le> B" by (simp add: B_def bpp)
  have ub: "unat (ucast bpp :: sector_t) = B" by (simp add: B_def unat_ucast_uint_ulong)
  have "unat q + unat (ucast bpp :: sector_t) < 2 ^ LENGTH(64)" using nw ub B_def by simp
  then have upb: "unat (q + ucast bpp) = unat q + B"
    using ub by (simp add: unat_add_lem [THEN iffD1])
  have "unat q + unat (1 :: sector_t) < 2 ^ LENGTH(64)" using nw B1 B_def by simp
  then have up1: "unat (q + 1) = unat q + 1" by (simp add: unat_add_lem [THEN iffD1])
  have lt: "unat q < unat (q + ucast bpp)" using upb B1 by simp
  from w have al: "bmap q AND ucast (bpp - 1) = 0"
    and cs: "check_stride bmap q (bmap q) bpp 1 = Contiguous"
    by (simp_all add: whole_stride_def)
  have inner: "\<not> whole_stride bmap bpp (of_nat i)"
    if i: "unat (q + 1) \<le> i" "i < unat (q + ucast bpp)" for i
  proof -
    define d where "d = i - unat q"
    have d: "0 < d" "d < B" "i = unat q + d" using i up1 upb by (simp_all add: d_def)
    have wi: "(of_nat i :: sector_t) = q + of_nat d" by (simp add: d(3))
    have "bmap (q + of_nat d) = bmap q + of_nat d"
      using check_stride_run [OF cs, of d] d by (simp add: B_def)
    from inside_not_whole [OF bpp k al d(1) _ this] d(2)
    show ?thesis by (simp add: wi B_def)
  qed
  have "strides_between bmap bpp (q + 1) (q + ucast bpp) =
        strides_between bmap bpp (q + ucast bpp) (q + ucast bpp)"
    by (rule strides_between_none [OF inner]) (use up1 upb B1 in simp_all)
  then have "strides_between bmap bpp q (q + ucast bpp) = [q]"
    using strides_between_step [OF lt, of bmap bpp] w by (simp add: strides_between_empty)
  moreover have "strides_between bmap bpp 0 (q + ucast bpp) =
        strides_between bmap bpp 0 q @ strides_between bmap bpp q (q + ucast bpp)"
    by (rule strides_between_append) (use upb in simp_all)
  ultimately show ?thesis by simp
qed

lemma einval_loop:
  fixes bpp :: uint and k :: nat
  assumes ret: "activate_loop ase bmap blkbits bpp L span st = Some r"
  shows "unat bpp = 2 ^ k \<longrightarrow> k \<le> 12 \<longrightarrow> unat L < 2 ^ 63 \<longrightarrow>
         (\<forall>s p b. sis_max (snd (ase s p 1 b)) = sis_max s) \<longrightarrow>
         (\<forall>s p b. fst (ase s p 1 b) \<noteq> - EINVAL) \<longrightarrow>
         (\<forall>x. unat x < unat (probe_block st) \<longrightarrow> bmap x \<noteq> 0) \<longrightarrow>
         unat (page_no st) = length (strides_between bmap bpp 0 (probe_block st)) \<longrightarrow>
         0 \<le> nr_extents st \<longrightarrow> unat (probe_block st) \<le> unat L \<longrightarrow>
         act_ret r = - EINVAL \<longrightarrow>
         (\<exists>h. bmap h = 0 \<and> (\<forall>x. x < h \<longrightarrow> bmap x \<noteq> 0) \<and>
              (unat h + 2 ^ k \<le> unat L \<or>
               (\<exists>p. p < h \<and> unat h < unat p + 2 ^ k \<and> unat p + 2 ^ k \<le> unat L \<and>
                    bmap p AND mask k = 0 \<and>
                    (\<forall>x. p < x \<and> x < h \<longrightarrow> bmap x = bmap p + (x - p)))) \<and>
              length (strides_between bmap bpp 0 h) < unat (sis_max (scan_sis st)))"
proof (rule activate_loop.raw_induct
    [where P = "\<lambda>ase bmap blkbits bpp L span st r.
         unat bpp = 2 ^ k \<longrightarrow> k \<le> 12 \<longrightarrow> unat L < 2 ^ 63 \<longrightarrow>
         (\<forall>s p b. sis_max (snd (ase s p 1 b)) = sis_max s) \<longrightarrow>
         (\<forall>s p b. fst (ase s p 1 b) \<noteq> - EINVAL) \<longrightarrow>
         (\<forall>x. unat x < unat (probe_block st) \<longrightarrow> bmap x \<noteq> 0) \<longrightarrow>
         unat (page_no st) = length (strides_between bmap bpp 0 (probe_block st)) \<longrightarrow>
         0 \<le> nr_extents st \<longrightarrow> unat (probe_block st) \<le> unat L \<longrightarrow>
         act_ret r = - EINVAL \<longrightarrow>
         (\<exists>h. bmap h = 0 \<and> (\<forall>x. x < h \<longrightarrow> bmap x \<noteq> 0) \<and>
              (unat h + 2 ^ k \<le> unat L \<or>
               (\<exists>p. p < h \<and> unat h < unat p + 2 ^ k \<and> unat p + 2 ^ k \<le> unat L \<and>
                    bmap p AND mask k = 0 \<and>
                    (\<forall>x. p < x \<and> x < h \<longrightarrow> bmap x = bmap p + (x - p)))) \<and>
              length (strides_between bmap bpp 0 h) < unat (sis_max (scan_sis st)))",
     OF _ ret], goal_cases)
  case (1 f ase bmap blkbits bpp L span st r)
  show ?case
  proof (intro impI)
    assume bpp: "unat bpp = 2 ^ k" and k: "k \<le> 12" and L63: "unat L < 2 ^ 63"
      and max: "\<forall>s p b. sis_max (snd (ase s p 1 b)) = sis_max s"
      and good: "\<forall>s p b. fst (ase s p 1 b) \<noteq> - EINVAL"
      and below: "\<forall>x. unat x < unat (probe_block st) \<longrightarrow> bmap x \<noteq> 0"
      and slots: "unat (page_no st) = length (strides_between bmap bpp 0 (probe_block st))"
      and ne: "0 \<le> nr_extents st" and pL: "unat (probe_block st) \<le> unat L"
      and bad: "act_ret r = - EINVAL"
    define probe where "probe = probe_block st"
    define pno where "pno = page_no st"
    define sis where "sis = scan_sis st"
    define B where "B = unat bpp"
    note body = 1(2) [folded probe_def pno_def sis_def]
    note below = below [folded probe_def] and slots = slots [folded probe_def pno_def]
      and pL = pL [folded probe_def]
    let ?met = "\<lambda>h. unat h + 2 ^ k \<le> unat L \<or>
               (\<exists>p. p < h \<and> unat h < unat p + 2 ^ k \<and> unat p + 2 ^ k \<le> unat L \<and>
                    bmap p AND mask k = 0 \<and>
                    (\<forall>x. p < x \<and> x < h \<longrightarrow> bmap x = bmap p + (x - p)))"
    let ?G = "\<lambda>m. \<exists>h. bmap h = 0 \<and> (\<forall>x. x < h \<longrightarrow> bmap x \<noteq> 0) \<and> ?met h \<and>
              length (strides_between bmap bpp 0 h) < unat m"
    have B1: "1 \<le> B" by (simp add: B_def bpp)
    have B4096: "B \<le> 4096"
    proof -
      have "(2 :: nat) ^ k \<le> 2 ^ 12" using k by (intro power_increasing) simp_all
      then show ?thesis by (simp add: B_def bpp)
    qed
    have Bk: "2 ^ k = B" by (simp add: B_def bpp)
    have ub: "unat (ucast bpp :: sector_t) = B" by (simp add: B_def unat_ucast_uint_ulong)
    have nw: "unat probe + B < 2 ^ 64" using pL L63 B4096 by simp
    then have "unat probe + unat (ucast bpp :: sector_t) < 2 ^ LENGTH(64)" using ub by simp
    then have upb: "unat (probe + ucast bpp) = unat probe + B"
      using ub by (simp add: unat_add_lem [THEN iffD1])
    have "unat probe + unat (1 :: sector_t) < 2 ^ LENGTH(64)" using nw B1 by simp
    then have up1: "unat (probe + 1) = unat probe + 1" by (simp add: unat_add_lem [THEN iffD1])
    have m: "(ucast (bpp - 1) :: sector_t) = mask k" by (rule blocks_per_page_mask [OF bpp k])
    have off: "unat (probe + of_nat j) = unat probe + j" if "j < B" for j
    proof -
      have "unat probe + j < 2 ^ 64" using that nw by simp
      then show ?thesis by (rule unat_offset)
    qed
    show "?G (sis_max (scan_sis st))"
    proof (cases "probe + ucast bpp \<le> L \<and> pno < ucast (sis_max sis)")
      case False
      with body have "r = \<lparr>act_ret = nr_extents st,
               act_sis = sis\<lparr>sis_max := ucast (if pno = 0 then 1 else pno),
                              sis_pages := ucast ((if pno = 0 then 1 else pno) - 1),
                              sis_highest_bit := ucast ((if pno = 0 then 1 else pno) - 1)\<rparr>,
               act_span = 1 + highest_block st - lowest_block st\<rparr>"
        by (simp add: Let_def)
      then have "act_ret r = nr_extents st" by simp
      with bad ne show ?thesis by (simp add: EINVAL_def)
    next
      case True
      then have cond: "probe + ucast bpp \<le> L" "pno < ucast (sis_max sis)" by blast+
      have fitB: "unat probe + B \<le> unat L"
        using cond(1) upb by (simp add: word_le_nat_alt)
      have pmax: "unat pno < unat (sis_max sis)"
        using cond(2) by (simp add: word_less_nat_alt unat_ucast_uint_ulong)
      let ?next = "st\<lparr>probe_block := probe + 1\<rparr>"
      have reprobe: "?G (sis_max (scan_sis st))"
        if call: "f ase bmap blkbits bpp L span ?next = Some r"
          and mapped: "bmap probe \<noteq> 0" and nwh: "\<not> whole_stride bmap bpp probe"
      proof -
        have b': "\<forall>x. unat x < unat (probe_block ?next) \<longrightarrow> bmap x \<noteq> 0"
        proof (intro allI impI)
          fix x :: sector_t
          assume "unat x < unat (probe_block ?next)"
          then have "unat x < unat probe \<or> x = probe"
            using up1 by (auto simp: word_unat_eq_iff)
          then show "bmap x \<noteq> 0" using below mapped by blast
        qed
        have "strides_between bmap bpp 0 (probe + 1) = strides_between bmap bpp 0 probe"
          using strides_between_snoc [of probe bmap bpp] nw B1 nwh by simp
        then have s': "unat (page_no ?next) =
                         length (strides_between bmap bpp 0 (probe_block ?next))"
          using slots by (simp add: pno_def)
        have n': "0 \<le> nr_extents ?next" using ne by simp
        have p': "unat (probe_block ?next) \<le> unat L" using up1 fitB B1 by simp
        from 1(1) [OF call, rule_format, OF bpp k L63 max [rule_format] good [rule_format]
              b' [rule_format] s' n' p' bad]
        show ?thesis by simp
      qed
      show ?thesis
      proof (cases "bmap probe = 0")
        case True
        have "\<forall>x. x < probe \<longrightarrow> bmap x \<noteq> 0" using below by (simp add: word_less_nat_alt)
        moreover have "unat probe + 2 ^ k \<le> unat L" using fitB Bk by simp
        moreover have "length (strides_between bmap bpp 0 probe) < unat (sis_max (scan_sis st))"
          using slots pmax by (simp add: sis_def)
        ultimately show ?thesis using True by blast
      next
        case mapped: False
        show ?thesis
        proof (cases "bmap probe AND ucast (bpp - 1) \<noteq> 0")
          case True
          then have nwh: "\<not> whole_stride bmap bpp probe" by (simp add: whole_stride_def)
          from body cond mapped True have "f ase bmap blkbits bpp L span ?next = Some r"
            by (simp add: Let_def)
          then show ?thesis using mapped nwh by (rule reprobe)
        next
          case aligned: False
          then have al: "bmap probe AND ucast (bpp - 1) = 0" by simp
          then have alk: "bmap probe AND mask k = 0" by (simp only: m)
          show ?thesis
          proof (cases "check_stride bmap probe (bmap probe) bpp 1")
            case Discontiguity
            then have nwh: "\<not> whole_stride bmap bpp probe" by (simp add: whole_stride_def)
            from body cond mapped aligned Discontiguity
            have "f ase bmap blkbits bpp L span ?next = Some r"
              by (simp add: Let_def)
            then show ?thesis using mapped nwh by (rule reprobe)
          next
            case Hole
            from check_stride_hole [OF Hole] obtain j where
              j: "unat (1 :: uint) \<le> j" "j < unat bpp" "bmap (probe + of_nat j) = 0"
                "\<forall>i. unat (1 :: uint) \<le> i \<and> i < j \<longrightarrow>
                   bmap (probe + of_nat i) = bmap probe + of_nat i"
              by blast
            have jB: "j < B" "0 < j" using j(1,2) by (simp_all add: B_def)
            define h where "h = probe + of_nat j"
            have uh: "unat h = unat probe + j" unfolding h_def by (rule off [OF jB(1)])
            have at: "x = probe + of_nat (unat x - unat probe)"
              if "unat probe \<le> unat x" for x :: sector_t
            proof -
              have "x = of_nat (unat x)" by simp
              also have "unat x = unat probe + (unat x - unat probe)" using that by simp
              also have "of_nat \<dots> = probe + of_nat (unat x - unat probe)"
                by (simp only: of_nat_add of_nat_unat) simp
              finally show ?thesis .
            qed
            have run: "bmap x = bmap probe + (x - probe) \<and> bmap x \<noteq> 0"
              if x: "unat probe < unat x" "unat x < unat h" for x
            proof -
              define d where "d = unat x - unat probe"
              have d: "0 < d" "d < j" using x uh by (simp_all add: d_def)
              have xd: "x = probe + of_nat d" unfolding d_def using x(1) by (intro at) simp
              have "bmap (probe + of_nat d) = bmap probe + of_nat d" using j(4) d by simp
              moreover have "bmap probe + of_nat d \<noteq> 0"
                using off_page(2) [OF alk d(1) _ k] d(2) jB(1) Bk by simp
              ultimately show ?thesis by (simp add: xd)
            qed
            have first: "\<forall>x. x < h \<longrightarrow> bmap x \<noteq> 0"
            proof (intro allI impI)
              fix x assume "x < h"
              then have xh: "unat x < unat h" by (simp add: word_less_nat_alt)
              consider "unat x < unat probe" | "x = probe" | "unat probe < unat x"
                by (metis linorder_neqE_nat word_unat_eq_iff)
              then show "bmap x \<noteq> 0"
              proof cases
                case 1 then show ?thesis using below by blast
              next
                case 2 then show ?thesis using mapped by simp
              next
                case 3 then show ?thesis using run xh by blast
              qed
            qed
            have inside: "probe < h \<and> unat h < unat probe + 2 ^ k \<and>
                  unat probe + 2 ^ k \<le> unat L \<and> bmap probe AND mask k = 0 \<and>
                  (\<forall>x. probe < x \<and> x < h \<longrightarrow> bmap x = bmap probe + (x - probe))"
              using uh jB fitB Bk alk run by (simp add: word_less_nat_alt)
            have none: "\<not> whole_stride bmap bpp (of_nat i)"
              if i: "unat probe \<le> i" "i < unat h" for i
            proof (cases "i = unat probe")
              case True
              then have "(of_nat i :: sector_t) = probe" by simp
              then show ?thesis using Hole by (simp add: whole_stride_def)
            next
              case False
              define d where "d = i - unat probe"
              have d: "0 < d" "d < j" "i = unat probe + d"
                using False i uh by (simp_all add: d_def)
              have w: "(of_nat i :: sector_t) = probe + of_nat d" by (simp add: d(3))
              have "bmap (probe + of_nat d) = bmap probe + of_nat d" using j(4) d by simp
              from inside_not_whole [OF bpp k al d(1) _ this] d(2) j(2)
              show ?thesis by (simp add: w)
            qed
            have "strides_between bmap bpp probe h = strides_between bmap bpp h h"
              by (rule strides_between_none [OF none]) (use uh in simp_all)
            then have "strides_between bmap bpp probe h = []"
              by (simp add: strides_between_empty)
            moreover have "strides_between bmap bpp 0 h =
                  strides_between bmap bpp 0 probe @ strides_between bmap bpp probe h"
              by (rule strides_between_append) (use uh in simp_all)
            ultimately have "length (strides_between bmap bpp 0 h) < unat (sis_max (scan_sis st))"
              using slots pmax by (simp add: sis_def)
            with j(3) first inside show ?thesis unfolding h_def [symmetric] by blast
          next
            case Contiguous
            have w: "whole_stride bmap bpp probe"
              using mapped al Contiguous by (simp add: whole_stride_def)
            define fb where "fb = drop_bit (unat (PAGE_SHIFT - blkbits)) (bmap probe)"
            define r' where "r' = ase sis pno 1 fb"
            show ?thesis
            proof (cases "fst r' < 0")
              case True
              with body cond mapped aligned Contiguous
              have "r = \<lparr>act_ret = fst r', act_sis = snd r', act_span = span\<rparr>"
                by (simp add: Let_def fb_def [symmetric] r'_def [symmetric])
              then have "act_ret r = fst r'" by simp
              with bad good show ?thesis by (simp add: r'_def)
            next
              case r0: False
              let ?st' = "st\<lparr>probe_block := probe + ucast bpp,
                       page_no := pno + 1,
                       lowest_block := (if pno \<noteq> 0 \<and> fb < lowest_block st
                                        then fb else lowest_block st),
                       highest_block := (if pno \<noteq> 0 \<and> fb > highest_block st
                                         then fb else highest_block st),
                       nr_extents := nr_extents st + fst r',
                       scan_sis := snd r'\<rparr>"
              from body cond mapped aligned Contiguous r0
              have call: "f ase bmap blkbits bpp L span ?st' = Some r"
                by (simp add: Let_def fb_def [symmetric] r'_def [symmetric])
              have "unat (sis_max sis) < 2 ^ 32" using unsigned_less [of "sis_max sis"] by simp
              with pmax have "unat pno + unat (1 :: ulong) < 2 ^ LENGTH(64)" by simp
              then have upn: "unat (pno + 1) = unat pno + 1"
                by (simp add: unat_add_lem [THEN iffD1])
              have b': "\<forall>x. unat x < unat (probe_block ?st') \<longrightarrow> bmap x \<noteq> 0"
              proof (intro allI impI)
                fix x :: sector_t
                assume "unat x < unat (probe_block ?st')"
                then have xb: "unat x < unat probe + B" using upb by simp
                consider "unat x < unat probe" | "x = probe" | "unat probe < unat x"
                  by (metis linorder_neqE_nat word_unat_eq_iff)
                then show "bmap x \<noteq> 0"
                proof cases
                  case 1 then show ?thesis using below by blast
                next
                  case 2 then show ?thesis using mapped by simp
                next
                  case 3
                  define d where "d = unat x - unat probe"
                  have d: "0 < d" "d < B" using 3 xb by (simp_all add: d_def)
                  have "x = of_nat (unat x)" by simp
                  also have "unat x = unat probe + d" using 3 by (simp add: d_def)
                  also have "of_nat \<dots> = probe + of_nat d"
                    by (simp only: of_nat_add of_nat_unat) simp
                  finally have xd: "x = probe + of_nat d" .
                  have "bmap (probe + of_nat d) = bmap probe + of_nat d"
                    using check_stride_run [OF Contiguous, of d] d by (simp add: B_def)
                  moreover have "bmap probe + of_nat d \<noteq> 0"
                    using off_page(2) [OF alk d(1) _ k] d(2) Bk by simp
                  ultimately show ?thesis by (simp add: xd)
                qed
              qed
              have "strides_between bmap bpp 0 (probe + ucast bpp) =
                    strides_between bmap bpp 0 probe @ [probe]"
                by (rule strides_between_taken [OF bpp k _ w]) (use nw in \<open>simp add: B_def\<close>)
              then have s': "unat (page_no ?st') =
                               length (strides_between bmap bpp 0 (probe_block ?st'))"
                using slots upn by simp
              have n': "0 \<le> nr_extents ?st'" using ne r0 by simp
              have p': "unat (probe_block ?st') \<le> unat L" using upb fitB by simp
              from 1(1) [OF call, rule_format, OF bpp k L63 max [rule_format] good [rule_format]
              b' [rule_format] s' n' p' bad]
              show ?thesis using max by (simp add: r'_def sis_def)
            qed
          qed
        qed
      qed
    qed
  qed
qed

text \<open>
  The scan answers \<^verbatim>\<open>-EINVAL\<close> only where it has met a hole: when activation of a
  file of non-negative size returns \<^verbatim>\<open>-EINVAL\<close>, and the helper does not itself
  answer that value, the first unmapped block of the file lies in one of the two places
  where the scan looks for a hole, with fewer strides taken below it than the store's
  maximum.
\<close>

lemma einval_hole_met:
  fixes blkbits :: uint
  assumes blk: "unat blkbits \<le> 12"
    and max: "\<forall>s p b. sis_max (snd (ase s p 1 b)) = sis_max s"
    and good: "\<forall>s p b. fst (ase s p 1 b) \<noteq> - EINVAL"
    and size: "0 \<le> sint i_size"
    and ret: "generic_swapfile_activate ase sis blkbits i_size bmap span = Some r"
    and bad: "act_ret r = - EINVAL"
  shows "\<exists>h. bmap h = 0 \<and> (\<forall>x. x < h \<longrightarrow> bmap x \<noteq> 0) \<and>
           (unat h + 2 ^ (12 - unat blkbits) \<le> unat (signed_drop_bit (unat blkbits) i_size) \<or>
            (\<exists>p. p < h \<and> unat h < unat p + 2 ^ (12 - unat blkbits) \<and>
                 unat p + 2 ^ (12 - unat blkbits) \<le>
                   unat (signed_drop_bit (unat blkbits) i_size) \<and>
                 bmap p AND mask (12 - unat blkbits) = 0 \<and>
                 (\<forall>x. p < x \<and> x < h \<longrightarrow> bmap x = bmap p + (x - p)))) \<and>
           length (strides_between bmap (ucast (drop_bit (unat blkbits) PAGE_SIZE)) 0 h)
             < unat (sis_max sis)"
proof -
  define k where "k = 12 - unat blkbits"
  define bpp where "bpp = (ucast (drop_bit (unat blkbits) PAGE_SIZE) :: uint)"
  define L where "L = signed_drop_bit (unat blkbits) i_size"
  define st where "st = \<lparr>probe_block = 0, page_no = 0, lowest_block = - 1, highest_block = 0,
            nr_extents = 0, scan_sis = sis\<rparr>"
  have b: "unat bpp = 2 ^ k"
    unfolding bpp_def k_def using blk by (rule blocks_per_page_unat)
  have kle: "k \<le> 12" by (simp add: k_def)
  have "0 \<le> sint L" using size by (simp add: L_def sint_signed_drop_bit_eq)
  then have L63: "unat L < 2 ^ 63" by (rule nonneg_size)
  have loop: "activate_loop ase bmap blkbits bpp L span st = Some r"
    using ret by (simp add: generic_swapfile_activate_def Let_def bpp_def L_def st_def)
  have i1: "\<forall>x. unat x < unat (probe_block st) \<longrightarrow> bmap x \<noteq> 0" by (simp add: st_def)
  have i2: "unat (page_no st) = length (strides_between bmap bpp 0 (probe_block st))"
    by (simp add: st_def strides_between_empty)
  have i3: "0 \<le> nr_extents st" by (simp add: st_def)
  have i4: "unat (probe_block st) \<le> unat L" by (simp add: st_def)
  from einval_loop [OF loop, rule_format, OF b kle L63 max [rule_format] good [rule_format]
      i1 [rule_format] i2 i3 i4 bad]
  show ?thesis by (simp add: st_def k_def bpp_def L_def)
qed

text \<open>
  C2, as amended. Let the block size be at most the page size, let the helper leave the
  store's maximum alone, and let \<open>h\<close> be the first unmapped block of the file. Let
  the scan meet \<open>h\<close> in one of the two places where it looks for a hole: as the first
  block of a stride (line 190), which it does when a whole stride starting at \<open>h\<close>
  still fits into the file; or in the inner loop (line 206), which it does when \<open>h\<close>
  lies inside a stride that fits into the file, whose first block \<open>p\<close> is mapped to a
  page-aligned block and whose blocks before \<open>h\<close> continue the block of \<open>p\<close>.
  Let fewer strides be taken for slots below \<open>h\<close> than the store's maximum. Then
  activation returns, and its result is that of the calls of the helper for the strides
  taken below \<open>h\<close>, for the slots 0, 1, and so on: when one of these calls answers a
  negative value, that value and the store of that call; otherwise \<^verbatim>\<open>-EINVAL\<close> and
  the store as the last of these calls left it. \<^verbatim>\<open>*span\<close> is not written and the slot
  counts are not set. Nothing that the helper put into the store before the hole was met
  is taken out again. By \<open>einval_hole_met\<close> the conditions on \<open>h\<close> hold of every
  file of non-negative size for which the scan answers \<^verbatim>\<open>-EINVAL\<close> on account of a
  hole: they are what "the hole lies within the scanned range" means.
\<close>

theorem activate_hole_einval:
  fixes blkbits :: uint and h :: sector_t
  assumes blk: "unat blkbits \<le> 12"
    and max: "\<forall>s p b. sis_max (snd (ase s p 1 b)) = sis_max s"
    and hole: "bmap h = 0"
    and first: "\<forall>x. x < h \<longrightarrow> bmap x \<noteq> 0"
    and meet: "unat h + 2 ^ (12 - unat blkbits) \<le> unat (signed_drop_bit (unat blkbits) i_size) \<or>
               (\<exists>p. p < h \<and> unat h < unat p + 2 ^ (12 - unat blkbits) \<and>
                    unat p + 2 ^ (12 - unat blkbits) \<le>
                      unat (signed_drop_bit (unat blkbits) i_size) \<and>
                    bmap p AND mask (12 - unat blkbits) = 0 \<and>
                    (\<forall>x. p < x \<and> x < h \<longrightarrow> bmap x = bmap p + (x - p)))"
    and room: "length (strides_between bmap (ucast (drop_bit (unat blkbits) PAGE_SIZE)) 0 h)
                 < unat (sis_max sis)"
  shows "generic_swapfile_activate ase sis blkbits i_size bmap span =
           (let a = add_strides ase bmap blkbits sis 0
                      (strides_between bmap (ucast (drop_bit (unat blkbits) PAGE_SIZE)) 0 h)
            in Some \<lparr>act_ret = (if fst a < 0 then fst a else - EINVAL), act_sis = snd a,
                      act_span = span\<rparr>)"
proof -
  define k where "k = 12 - unat blkbits"
  define bpp where "bpp = (ucast (drop_bit (unat blkbits) PAGE_SIZE) :: uint)"
  define L where "L = signed_drop_bit (unat blkbits) i_size"
  define st where "st = \<lparr>probe_block = 0, page_no = 0, lowest_block = - 1, highest_block = 0,
            nr_extents = 0, scan_sis = sis\<rparr>"
  have b: "unat bpp = 2 ^ k"
    unfolding bpp_def k_def using blk by (rule blocks_per_page_unat)
  have kle: "k \<le> 12" by (simp add: k_def)
  have m: "(ucast (bpp - 1) :: sector_t) = mask k" by (rule blocks_per_page_mask [OF b kle])
  have h64: "unat h < 2 ^ 64" using unsigned_less [of h] by simp
  have below: "bmap x \<noteq> 0" if "unat x < unat h" for x
    using first that by (simp add: word_less_nat_alt)
  have target: "\<exists>t. unat t \<le> unat h \<and> unat t + unat bpp \<le> unat L \<and>
            (bmap t = 0 \<or>
              (bmap t AND ucast (bpp - 1) = 0 \<and> check_stride bmap t (bmap t) bpp 1 = Hole)) \<and>
            strides_between bmap bpp t h = []"
  proof -
    from meet consider (head) "unat h + 2 ^ k \<le> unat L"
      | (inside) p where "p < h" "unat h < unat p + 2 ^ k" "unat p + 2 ^ k \<le> unat L"
          "bmap p AND mask k = 0" "\<forall>x. p < x \<and> x < h \<longrightarrow> bmap x = bmap p + (x - p)"
      unfolding k_def L_def by blast
    then show ?thesis
    proof cases
      case head
      then show ?thesis
        using hole b by (intro exI [of _ h]) (simp add: strides_between_empty)
    next
      case inside
      have ph: "unat p < unat h" using inside(1) by (simp add: word_less_nat_alt)
      define j where "j = unat h - unat p"
      have j: "0 < j" "j < 2 ^ k" "unat h = unat p + j" using ph inside(2) by (simp_all add: j_def)
      have "h = of_nat (unat h)" by simp
      also have "\<dots> = p + of_nat j" by (simp only: j(3) of_nat_add of_nat_unat) simp
      finally have hj: "p + of_nat j = h" by simp
      have run: "bmap (p + of_nat i) = bmap p + of_nat i \<and> bmap p + of_nat i \<noteq> 0"
        if i: "0 < i" "i < j" for i
      proof -
        have "unat p + i < 2 ^ 64" using i j(3) h64 by simp
        then have u: "unat (p + of_nat i) = unat p + i" by (rule unat_offset)
        then have lt: "p < p + of_nat i" "p + of_nat i < h"
          using i j(3) by (simp_all add: word_less_nat_alt)
        then have "bmap (p + of_nat i) = bmap p + (p + of_nat i - p)" using inside(5) by blast
        moreover have "bmap (p + of_nat i) \<noteq> 0" using lt(2) first by blast
        ultimately show ?thesis by simp
      qed
      have cs: "check_stride bmap p (bmap p) bpp 1 = Hole"
      proof (rule check_stride_hole_intro [where j = j])
        show "unat (1 :: uint) \<le> j" using j(1) by simp
        show "j < unat bpp" using j(2) b by simp
        show "bmap (p + of_nat j) = 0" using hj hole by simp
        fix i
        assume "unat (1 :: uint) \<le> i" "i < j"
        then show "bmap (p + of_nat i) = bmap p + of_nat i \<and> bmap p + of_nat i \<noteq> 0"
          using run [of i] by simp
      qed
      have al: "bmap p AND ucast (bpp - 1) = 0" using inside(4) by (simp only: m)
      have none: "\<not> whole_stride bmap bpp (of_nat i)"
        if i: "unat p \<le> i" "i < unat h" for i
      proof (cases "i = unat p")
        case True
        then have "(of_nat i :: sector_t) = p" by simp
        then show ?thesis using cs by (simp add: whole_stride_def)
      next
        case False
        define d where "d = i - unat p"
        have d: "0 < d" "d < j" "i = unat p + d" using False i j(3) by (simp_all add: d_def)
        have w: "(of_nat i :: sector_t) = p + of_nat d" by (simp add: d(3))
        from run [OF d(1,2)] have "bmap (p + of_nat d) = bmap p + of_nat d" by blast
        from inside_not_whole [OF b kle al d(1) _ this] d(2) j(2) b
        show ?thesis by (simp add: w)
      qed
      have "strides_between bmap bpp p h = strides_between bmap bpp h h"
        by (rule strides_between_none [OF none]) (use ph in simp_all)
      then have "strides_between bmap bpp p h = []" by (simp add: strides_between_empty)
      then show ?thesis
        using ph inside(3) b al cs by (intro exI [of _ p]) simp
    qed
  qed
  then obtain t where t: "unat t \<le> unat h" "unat t + unat bpp \<le> unat L"
    "bmap t = 0 \<or>
       (bmap t AND ucast (bpp - 1) = 0 \<and> check_stride bmap t (bmap t) bpp 1 = Hole)"
    "strides_between bmap bpp t h = []"
    by blast
  have sb: "strides_between bmap bpp 0 h = strides_between bmap bpp 0 t"
    using strides_between_append [of 0 t h bmap bpp] t(1,4) by simp
  have fst': "bmap x \<noteq> 0" if "unat x < unat t" for x
    using that t(1) by (intro below) simp
  have p1: "unat (probe_block st) \<le> unat t" by (simp add: st_def)
  have p2: "unat (page_no st) + length (strides_between bmap bpp (probe_block st) t)
            < unat (sis_max (scan_sis st))"
    using room sb by (simp add: st_def bpp_def)
  have "activate_loop ase bmap blkbits bpp L span st =
           (let a = add_strides ase bmap blkbits (scan_sis st) (page_no st)
                      (strides_between bmap bpp (probe_block st) t)
            in Some \<lparr>act_ret = (if fst a < 0 then fst a else - EINVAL), act_sis = snd a,
                      act_span = span\<rparr>)"
    by (rule scan_to_hole [where ase = ase and bmap = bmap and t = t and last_block = L
          and st = st, OF b kle max [rule_format] t(2) fst' t(3) p1 p2])
  then show ?thesis
    by (simp add: generic_swapfile_activate_def Let_def bpp_def [symmetric] L_def [symmetric]
          st_def sb)
qed

theorem activate_hole_einval_witness:
  "hole_at_2 2 = 0 \<and> hole_at_14 14 = 0 \<and>
   generic_swapfile_activate add_swap_extent file_sis 12 16384 hole_at_2 7 =
     Some \<lparr>act_ret = - 22,
           act_sis = file_sis\<lparr>sis_extents :=
             [\<lparr>se_start_page = 0, se_nr_pages = 2, se_start_block = 100\<rparr>]\<rparr>,
           act_span = 7\<rparr> \<and>
   generic_swapfile_activate add_swap_extent file_sis 10 16384 hole_at_14 7 =
     Some \<lparr>act_ret = - 22,
           act_sis = file_sis\<lparr>sis_extents :=
             [\<lparr>se_start_page = 0, se_nr_pages = 3, se_start_block = 100\<rparr>]\<rparr>,
           act_span = 7\<rparr> \<and>
   generic_swapfile_activate (no_memory_at 1) file_sis 12 16384 hole_at_2 7 =
     Some \<lparr>act_ret = - 12,
           act_sis = file_sis\<lparr>sis_extents :=
             [\<lparr>se_start_page = 0, se_nr_pages = 1, se_start_block = 100\<rparr>]\<rparr>,
           act_span = 7\<rparr>"
proof -
  have blk: "unat (12 :: uint) \<le> 12" "unat (10 :: uint) \<le> 12" by simp_all
  have keep: "\<forall>s p b. sis_max (snd (add_swap_extent s p 1 b)) = sis_max s"
    by (simp add: add_swap_extent_frame(3))
  have keep': "\<forall>s p b. sis_max (snd (no_memory_at 1 s p 1 b)) = sis_max s"
    by (simp add: no_memory_at_def add_swap_extent_frame(3))
  have hole: "hole_at_2 2 = 0" "hole_at_14 14 = 0"
    by (simp_all add: hole_at_2_def hole_at_14_def)
  have first2: "\<forall>x. x < 2 \<longrightarrow> hole_at_2 x \<noteq> 0"
  proof (intro allI impI)
    fix x :: sector_t
    assume "x < 2"
    then have x: "unat x < 2" by (simp add: word_less_nat_alt)
    then have "x \<noteq> 2" by auto
    moreover have "(100 :: sector_t) + x \<noteq> 0" using x by (intro offset_mapped) simp_all
    ultimately show "hole_at_2 x \<noteq> 0" by (simp add: hole_at_2_def)
  qed
  have first14: "\<forall>x. x < 14 \<longrightarrow> hole_at_14 x \<noteq> 0"
  proof (intro allI impI)
    fix x :: sector_t
    assume "x < 14"
    then have x: "unat x < 14" by (simp add: word_less_nat_alt)
    then have "x \<noteq> 14" by auto
    moreover have "(400 :: sector_t) + x \<noteq> 0" using x by (intro offset_mapped) simp_all
    ultimately show "hole_at_14 x \<noteq> 0" by (simp add: hole_at_14_def)
  qed
  have meet2: "unat (2 :: sector_t) + 2 ^ (12 - unat (12 :: uint))
                 \<le> unat (signed_drop_bit (unat (12 :: uint)) (16384 :: 64 word)) \<or>
               (\<exists>p. p < 2 \<and> unat (2 :: sector_t) < unat p + 2 ^ (12 - unat (12 :: uint)) \<and>
                    unat p + 2 ^ (12 - unat (12 :: uint)) \<le>
                      unat (signed_drop_bit (unat (12 :: uint)) (16384 :: 64 word)) \<and>
                    hole_at_2 p AND mask (12 - unat (12 :: uint)) = 0 \<and>
                    (\<forall>x. p < x \<and> x < 2 \<longrightarrow> hole_at_2 x = hole_at_2 p + (x - p)))"
    by simp
  have between: "x = 13" if "12 < x \<and> x < 14" for x :: sector_t
  proof -
    from that have "unat x = 13" by (simp add: word_less_nat_alt)
    then show ?thesis by (simp add: word_unat_eq_iff)
  qed
  have inside: "(12 :: sector_t) < 14 \<and>
        unat (14 :: sector_t) < unat (12 :: sector_t) + 2 ^ (12 - unat (10 :: uint)) \<and>
        unat (12 :: sector_t) + 2 ^ (12 - unat (10 :: uint)) \<le>
          unat (signed_drop_bit (unat (10 :: uint)) (16384 :: 64 word)) \<and>
        hole_at_14 12 AND mask (12 - unat (10 :: uint)) = 0 \<and>
        (\<forall>x. 12 < x \<and> x < 14 \<longrightarrow> hole_at_14 x = hole_at_14 12 + (x - 12))"
    using between by (auto simp: hole_at_14_def mask_eq_exp_minus_1)
  then have meet14: "unat (14 :: sector_t) + 2 ^ (12 - unat (10 :: uint))
                 \<le> unat (signed_drop_bit (unat (10 :: uint)) (16384 :: 64 word)) \<or>
               (\<exists>p. p < 14 \<and> unat (14 :: sector_t) < unat p + 2 ^ (12 - unat (10 :: uint)) \<and>
                    unat p + 2 ^ (12 - unat (10 :: uint)) \<le>
                      unat (signed_drop_bit (unat (10 :: uint)) (16384 :: 64 word)) \<and>
                    hole_at_14 p AND mask (12 - unat (10 :: uint)) = 0 \<and>
                    (\<forall>x. p < x \<and> x < 14 \<longrightarrow> hole_at_14 x = hole_at_14 p + (x - p)))"
    by blast
  have s2: "strides_between hole_at_2 (ucast (drop_bit (unat (12 :: uint)) PAGE_SIZE)) 0 2 =
            [0, 1]"
    by (simp add: strides_between_def whole_stride_def check_stride.simps hole_at_2_def
          PAGE_SIZE_def PAGE_SHIFT_def upt_conv_Cons)
  have s14: "strides_between hole_at_14 (ucast (drop_bit (unat (10 :: uint)) PAGE_SIZE)) 0 14 =
             [0, 4, 8]"
    by (simp add: strides_between_def whole_stride_def check_stride.simps hole_at_14_def
          PAGE_SIZE_def PAGE_SHIFT_def upt_conv_Cons)
  have room2: "length (strides_between hole_at_2 (ucast (drop_bit (unat (12 :: uint)) PAGE_SIZE))
                 0 2) < unat (sis_max file_sis)"
    unfolding s2 by (simp add: file_sis_def)
  have room14: "length (strides_between hole_at_14
                  (ucast (drop_bit (unat (10 :: uint)) PAGE_SIZE)) 0 14) < unat (sis_max file_sis)"
    unfolding s14 by (simp add: file_sis_def)
  have a: "generic_swapfile_activate add_swap_extent file_sis 12 16384 hole_at_2 7 =
     Some \<lparr>act_ret = - 22,
           act_sis = file_sis\<lparr>sis_extents :=
             [\<lparr>se_start_page = 0, se_nr_pages = 2, se_start_block = 100\<rparr>]\<rparr>,
           act_span = 7\<rparr>"
    unfolding activate_hole_einval [where ase = add_swap_extent and bmap = hole_at_2 and h = 2
        and sis = file_sis and blkbits = 12 and i_size = 16384,
        OF blk(1) keep hole(1) first2 meet2 room2] s2
    by (simp add: add_swap_extent_def PAGE_SHIFT_def hole_at_2_def file_sis_def EINVAL_def)
  have b: "generic_swapfile_activate add_swap_extent file_sis 10 16384 hole_at_14 7 =
     Some \<lparr>act_ret = - 22,
           act_sis = file_sis\<lparr>sis_extents :=
             [\<lparr>se_start_page = 0, se_nr_pages = 3, se_start_block = 100\<rparr>]\<rparr>,
           act_span = 7\<rparr>"
    unfolding activate_hole_einval [where ase = add_swap_extent and bmap = hole_at_14 and h = 14
        and sis = file_sis and blkbits = 10 and i_size = 16384,
        OF blk(2) keep hole(2) first14 meet14 room14] s14
    by (simp add: add_swap_extent_def PAGE_SHIFT_def hole_at_14_def file_sis_def EINVAL_def)
  have c: "generic_swapfile_activate (no_memory_at 1) file_sis 12 16384 hole_at_2 7 =
     Some \<lparr>act_ret = - 12,
           act_sis = file_sis\<lparr>sis_extents :=
             [\<lparr>se_start_page = 0, se_nr_pages = 1, se_start_block = 100\<rparr>]\<rparr>,
           act_span = 7\<rparr>"
    unfolding activate_hole_einval [where ase = "no_memory_at 1" and bmap = hole_at_2 and h = 2
        and sis = file_sis and blkbits = 12 and i_size = 16384,
        OF blk(1) keep' hole(1) first2 meet2 room2] s2
    by (simp add: no_memory_at_def add_swap_extent_def PAGE_SHIFT_def hole_at_2_def file_sis_def
          EINVAL_def ENOMEM_def)
  from a b c hole show ?thesis by blast
qed

text \<open>
  The claim as stated asks that no extent added before the hole is retained. For the
  file whose block of slot 2 is unmapped, activation returns \<^verbatim>\<open>-EINVAL\<close> (-22) and
  the store, which had no extent, holds the extent of slots 0 and 1.
\<close>

theorem activate_hole_keeps_extents_counterexample:
  "hole_at_2 2 = 0 \<and> sis_extents file_sis = [] \<and>
   generic_swapfile_activate add_swap_extent file_sis 12 16384 hole_at_2 0 =
     Some \<lparr>act_ret = - 22,
           act_sis = file_sis\<lparr>sis_extents :=
             [\<lparr>se_start_page = 0, se_nr_pages = 2, se_start_block = 100\<rparr>]\<rparr>,
           act_span = 0\<rparr>"
  unfolding generic_swapfile_activate_def
  apply (simp add: PAGE_SIZE_def PAGE_SHIFT_def hole_at_2_def file_sis_def)
  apply (subst activate_loop.simps)
  apply (simp add: add_swap_extent_def check_stride.simps PAGE_SHIFT_def EINVAL_def
           hole_at_2_def)
  apply (subst activate_loop.simps)
  apply (simp add: add_swap_extent_def check_stride.simps PAGE_SHIFT_def EINVAL_def
           hole_at_2_def)
  apply (subst activate_loop.simps)
  apply (simp add: add_swap_extent_def check_stride.simps PAGE_SHIFT_def EINVAL_def
           hole_at_2_def)
  done

subsection \<open>Unfolding the primitives\<close>

lemmas prims = ev_def unlock_page_def trylock_page_def set_page_writeback_def
  end_page_writeback_def set_page_dirty_def SetPageDirty_def SetPageError_def
  SetPageUptodate_def ClearPageUptodate_def ClearPageReclaim_def bio_get_def bio_put_def
  submit_bio_def count_vm_event_PSWPOUT_def count_vm_event_PSWPIN_def call_def
  count_swpout_vm_event_def

lemmas inputs = blk_env_def hit_env_def fast_env_def nfs_env_def accept_def take_unlock_def
  take_unlock_at_def blk_sis_def state5_def page5_def keep_def refuse_def short_write_def
  refuse_at_def extent_map_def one_ref_def never_found_def read_bio_def reading_def
  swap_page_sector_def page_file_index_def hpage_nr_pages_def PAGE_SHIFT_def PAGE_SIZE_def
  ENOMEM_def

subsection \<open>Completion of a write\<close>

text \<open>
  C3, as amended. A write that takes the generic request path (the stale-page check and
  the front-end cache decline, the store is not filesystem-backed, the device's
  single-page shortcut declines, a request can be allocated) returns 0 having counted
  \<^verbatim>\<open>hpage_nr_pages\<close> written pages at submission. When the request then completes with
  a failure status, the page ends with the error flag set, dirty, unlocked, with
  writeback cleared and the reclaim flag cleared; the count taken at submission stays.
\<close>

theorem failed_write_completion:
  assumes "try_to_free_swap e (pg s) = (False, p1)"
    and "frontswap_store e p1 = (r1, p2)" and "r1 \<noteq> 0"
    and "PG_swapcache p2" and "SWP_FS \<notin> sis_flags (page_swap_info e)"
    and "bdev_write_page e (swap_page_sector p2) p2 = (r2, p3)" and "r2 \<noteq> 0"
    and "bio_alloc e"
    and "status \<noteq> 0"
  shows "\<exists>s1. swap_writepage e wbc s = Inr (0, s1) \<and>
           PSWPOUT s1 = PSWPOUT s + hpage_nr_pages p3 \<and>
           (let s2 = bio_endio e status s1 in
            PG_error (pg s2) \<and> PG_dirty (pg s2) \<and> \<not> PG_locked (pg s2) \<and>
            \<not> PG_writeback (pg s2) \<and> \<not> PG_reclaim (pg s2) \<and>
            PSWPOUT s2 = PSWPOUT s + hpage_nr_pages p3)"
  using assms
  by (simp add: swap_writepage_def raw_swap_writepage_def get_swap_bio_def bio_endio_def
        end_swap_bio_write_def prims Let_def)

theorem failed_write_completion_witness:
  "try_to_free_swap blk_env (pg state5) = (False, page5) \<and>
   frontswap_store blk_env page5 = (- 1, page5) \<and>
   PG_swapcache page5 \<and> SWP_FS \<notin> sis_flags (page_swap_info blk_env) \<and>
   bdev_write_page blk_env (swap_page_sector page5) page5 = (- 95, page5) \<and>
   bio_alloc blk_env \<and>
   (\<exists>s1. swap_writepage blk_env {} state5 = Inr (0, s1) \<and>
      PSWPOUT s1 = PSWPOUT state5 + hpage_nr_pages page5 \<and>
      (let s2 = bio_endio blk_env 10 s1 in
       PG_error (pg s2) \<and> PG_dirty (pg s2) \<and> \<not> PG_locked (pg s2) \<and>
       \<not> PG_writeback (pg s2) \<and> \<not> PG_reclaim (pg s2) \<and>
       PSWPOUT s2 = PSWPOUT state5 + hpage_nr_pages page5))"
proof -
  have h: "try_to_free_swap blk_env (pg state5) = (False, page5)"
    "frontswap_store blk_env page5 = (- 1, page5)"
    "PG_swapcache page5" "SWP_FS \<notin> sis_flags (page_swap_info blk_env)"
    "bdev_write_page blk_env (swap_page_sector page5) page5 = (- 95, page5)"
    "bio_alloc blk_env"
    by (simp_all add: inputs)
  from failed_write_completion [OF h(1) h(2) _ h(3) h(4) h(5) _ h(6), of 10 "{}"]
  show ?thesis using h by simp
qed

text \<open>
  The claim as stated asks that the written-pages counter is not incremented for a page
  whose write fails. For \<open>page5\<close> on the block device the flags end as claimed, but
  the counter has moved from 0 to 1.
\<close>

theorem failed_write_counter_counterexample:
  "PG_error (pg failed_write) \<and> PG_dirty (pg failed_write) \<and>
   \<not> PG_locked (pg failed_write) \<and> \<not> PG_writeback (pg failed_write) \<and>
   \<not> PG_reclaim (pg failed_write) \<and>
   PSWPOUT state5 = 0 \<and> PSWPOUT failed_write = 1 \<and>
   PSWPOUT failed_write \<noteq> PSWPOUT state5"
  by (simp add: failed_write_def swap_writepage_def raw_swap_writepage_def get_swap_bio_def
        bio_endio_def end_swap_bio_write_def prims Let_def inputs)

subsection \<open>Allocation failure on the write path\<close>

text \<open>
  C6. A write that reaches the generic request path and cannot allocate its request
  returns \<^verbatim>\<open>-ENOMEM\<close>. The page is the one the declined shortcut left, marked dirty and
  unlocked; its writeback flag is not touched, no request exists or is submitted, and
  the counters are unchanged: the only calls made are the three declined attempts,
  \<^verbatim>\<open>set_page_dirty\<close> and \<^verbatim>\<open>unlock_page\<close>.
\<close>

theorem write_alloc_failure:
  assumes "try_to_free_swap e (pg s) = (False, p1)"
    and "frontswap_store e p1 = (r1, p2)" and "r1 \<noteq> 0"
    and "PG_swapcache p2" and "SWP_FS \<notin> sis_flags (page_swap_info e)"
    and "bdev_write_page e (swap_page_sector p2) p2 = (r2, p3)" and "r2 \<noteq> 0"
    and "\<not> bio_alloc e"
  shows "swap_writepage e wbc s =
           Inr (- ENOMEM,
                s\<lparr>pg := p3\<lparr>PG_dirty := True, PG_locked := False\<rparr>,
                  req := None,
                  trace := trace s @ [Ev_try_to_free_swap, Ev_frontswap_store,
                     Ev_bdev_write_page (swap_page_sector p2),
                     Ev_set_page_dirty, Ev_unlock_page]\<rparr>)"
  using assms
  by (simp add: swap_writepage_def raw_swap_writepage_def get_swap_bio_def prims Let_def)

theorem write_alloc_failure_witness:
  "try_to_free_swap (blk_env\<lparr>bio_alloc := False\<rparr>) (pg state5) = (False, page5) \<and>
   frontswap_store (blk_env\<lparr>bio_alloc := False\<rparr>) page5 = (- 1, page5) \<and>
   PG_swapcache page5 \<and>
   SWP_FS \<notin> sis_flags (page_swap_info (blk_env\<lparr>bio_alloc := False\<rparr>)) \<and>
   bdev_write_page (blk_env\<lparr>bio_alloc := False\<rparr>) (swap_page_sector page5) page5 =
     (- 95, page5) \<and>
   \<not> bio_alloc (blk_env\<lparr>bio_alloc := False\<rparr>) \<and>
   swap_writepage (blk_env\<lparr>bio_alloc := False\<rparr>) {} state5 =
     Inr (- 12,
          state5\<lparr>pg := page5\<lparr>PG_dirty := True, PG_locked := False\<rparr>,
            req := None,
            trace := [Ev_try_to_free_swap, Ev_frontswap_store, Ev_bdev_write_page 40,
                      Ev_set_page_dirty, Ev_unlock_page]\<rparr>)"
proof -
  let ?e = "blk_env\<lparr>bio_alloc := False\<rparr>"
  have h: "try_to_free_swap ?e (pg state5) = (False, page5)"
    "frontswap_store ?e page5 = (- 1, page5)"
    "PG_swapcache page5" "SWP_FS \<notin> sis_flags (page_swap_info ?e)"
    "bdev_write_page ?e (swap_page_sector page5) page5 = (- 95, page5)"
    "\<not> bio_alloc ?e"
    by (simp_all add: inputs)
  have sec: "swap_page_sector page5 = 40"
    by (simp add: inputs)
  from write_alloc_failure [OF h(1) h(2) _ h(3) h(4) h(5) _ h(6), of "{}"]
  show ?thesis using h sec by (simp add: ENOMEM_def state5_def)
qed

subsection \<open>Completion of a read\<close>

lemma end_swap_bio_read_parts:
  fixes e bio s
  defines "m \<equiv> (if bi_status bio \<noteq> 0
                 then ev Ev_pr_alert (ClearPageUptodate (SetPageError s))
                 else swap_slot_free_notify e (SetPageUptodate s))"
  shows "pg (end_swap_bio_read e bio s) = (pg m)\<lparr>PG_locked := False\<rparr>"
    and "trace (end_swap_bio_read e bio s) =
           trace m @ [Ev_unlock_page, Ev_clear_bi_private, Ev_bio_put] @
           (case bi_private bio of None \<Rightarrow> []
            | Some t \<Rightarrow> [Ev_blk_wake_io_task t, Ev_put_task_struct t])"
    and "req (end_swap_bio_read e bio s) =
           (case req m of None \<Rightarrow> None
            | Some b \<Rightarrow> if bi_cnt b \<le> 1 then None
                        else Some (b\<lparr>bi_private := None, bi_cnt := bi_cnt b - 1\<rparr>))"
proof -
  have unf: "end_swap_bio_read e bio s =
      (let s = bio_put (ev Ev_clear_bi_private
                 ((unlock_page m)\<lparr>req := map_option (\<lambda>b. b\<lparr>bi_private := None\<rparr>)
                                          (req (unlock_page m))\<rparr>))
       in case bi_private bio of None \<Rightarrow> s
          | Some t \<Rightarrow> ev (Ev_put_task_struct t) (ev (Ev_blk_wake_io_task t) s))"
    by (cases "bi_private bio") (simp_all add: end_swap_bio_read_def m_def Let_def)
  show "pg (end_swap_bio_read e bio s) = (pg m)\<lparr>PG_locked := False\<rparr>"
    unfolding unf by (cases "bi_private bio") (simp_all add: prims Let_def)
  show "trace (end_swap_bio_read e bio s) =
           trace m @ [Ev_unlock_page, Ev_clear_bi_private, Ev_bio_put] @
           (case bi_private bio of None \<Rightarrow> []
            | Some t \<Rightarrow> [Ev_blk_wake_io_task t, Ev_put_task_struct t])"
    unfolding unf by (cases "bi_private bio") (simp_all add: prims Let_def)
  show "req (end_swap_bio_read e bio s) =
           (case req m of None \<Rightarrow> None
            | Some b \<Rightarrow> if bi_cnt b \<le> 1 then None
                        else Some (b\<lparr>bi_private := None, bi_cnt := bi_cnt b - 1\<rparr>))"
    unfolding unf by (cases "bi_private bio"; cases "req m") (simp_all add: prims Let_def)
qed

lemma slot_free_notify_keeps:
  "PG_uptodate (pg (swap_slot_free_notify e s)) = PG_uptodate (pg s)"
  by (simp add: swap_slot_free_notify_def SetPageDirty_def ev_def Let_def)



subsection \<open>The slot-free notification\<close>

text \<open>
  C9. \<^verbatim>\<open>swap_slot_free_notify\<close> leaves the state as it is (no page flag changes, no
  call is made) unless the page is in the swap cache, the store has \<^verbatim>\<open>SWP_BLKDEV\<close>,
  the device has the hook and the slot's swap count is 1. When all four hold it sets the
  page dirty and then notifies the device of the slot's offset, in this order, and
  changes nothing else.
\<close>

theorem slot_free_notify_guard:
  "(\<not> (PG_swapcache (pg s) \<and> SWP_BLKDEV \<in> sis_flags (page_swap_info e) \<and>
        has_slot_free_notify e \<and> swap_count e (page_private (pg s)) = 1)
     \<longrightarrow> swap_slot_free_notify e s = s) \<and>
   (PG_swapcache (pg s) \<and> SWP_BLKDEV \<in> sis_flags (page_swap_info e) \<and>
        has_slot_free_notify e \<and> swap_count e (page_private (pg s)) = 1
     \<longrightarrow> swap_slot_free_notify e s =
           s\<lparr>pg := (pg s)\<lparr>PG_dirty := True\<rparr>,
             trace := trace s @ [Ev_SetPageDirty,
               Ev_slot_free_notify (sis_bdev (page_swap_info e))
                 (swp_offset (page_private (pg s)))]\<rparr>)"
  by (auto simp: swap_slot_free_notify_def SetPageDirty_def ev_def Let_def)

theorem slot_free_notify_guard_witness:
  "PG_swapcache (pg state5) \<and> SWP_BLKDEV \<in> sis_flags (page_swap_info blk_env) \<and>
   has_slot_free_notify blk_env \<and> swap_count blk_env (page_private (pg state5)) = 1 \<and>
   swap_slot_free_notify blk_env state5 =
     state5\<lparr>pg := page5\<lparr>PG_dirty := True\<rparr>,
            trace := [Ev_SetPageDirty, Ev_slot_free_notify 1 5]\<rparr> \<and>
   \<not> (PG_swapcache (pg state5) \<and>
        SWP_BLKDEV \<in> sis_flags (page_swap_info (blk_env\<lparr>has_slot_free_notify := False\<rparr>)) \<and>
        has_slot_free_notify (blk_env\<lparr>has_slot_free_notify := False\<rparr>) \<and>
        swap_count (blk_env\<lparr>has_slot_free_notify := False\<rparr>) (page_private (pg state5)) = 1) \<and>
   swap_slot_free_notify (blk_env\<lparr>has_slot_free_notify := False\<rparr>) state5 = state5"
  using slot_free_notify_guard [of state5 blk_env]
    slot_free_notify_guard [of state5 "blk_env\<lparr>has_slot_free_notify := False\<rparr>"]
  by (simp add: inputs)

subsection \<open>The asynchronous read\<close>

lemma swap_read_io_async:
  "\<exists>ret s'. swap_read_io e False s = Some (ret, s') \<and>
       (\<exists>evs. trace s' = trace s @ evs \<and> \<not> list_ex blocking_event evs)"
  by (simp add: swap_read_io_def swap_slot_free_notify_def get_swap_bio_def prims Let_def
           split: option.splits)

text \<open>
  C10. \<^verbatim>\<open>swap_readpage_async\<close> always returns (it never waits in the poll loop), and
  among the calls it makes there is none by which a reader waits: no poll of the queue,
  no \<^verbatim>\<open>io_schedule\<close>, no switch to \<^verbatim>\<open>TASK_UNINTERRUPTIBLE\<close>, no reference taken on
  the current task, and any request it submits carries no waiting task in
  \<^verbatim>\<open>bi_private\<close> and no \<^verbatim>\<open>REQ_HIPRI\<close>.
\<close>

theorem readpage_async_never_blocks:
  "\<exists>r. swap_readpage_async e s = Some r \<and>
       (case r of
          Inl b \<Rightarrow> True
        | Inr x \<Rightarrow> \<exists>evs. trace (snd x) = trace s @ evs \<and> \<not> list_ex blocking_event evs)"
proof (cases "\<not> PG_swapcache (pg s) \<or> \<not> PG_locked (pg s) \<or> PG_uptodate (pg s)")
  case True
  then show ?thesis by (auto simp: swap_readpage_async_def)
next
  case ok: False
  define s1 where "s1 = snd (call (frontswap_load_async e) Ev_frontswap_load_async s)"
  have t1: "trace s1 = trace s @ [Ev_frontswap_load_async]"
    by (simp add: s1_def call_def ev_def Let_def)
  show ?thesis
  proof (cases "fst (call (frontswap_load_async e) Ev_frontswap_load_async s) = 0")
    case True
    with ok t1 show ?thesis by (simp add: swap_readpage_async_def Let_def s1_def)
  next
    case False
    from swap_read_io_async [of e s1] obtain ret s' evs where
      io: "swap_read_io e False s1 = Some (ret, s')" and
      tr: "trace s' = trace s1 @ evs" and nb: "\<not> list_ex blocking_event evs"
      by blast
    from ok False io have "swap_readpage_async e s = Some (Inr (ret, s'))"
      by (simp add: swap_readpage_async_def Let_def s1_def)
    moreover have "trace s' = trace s @ (Ev_frontswap_load_async # evs)"
      using tr t1 by simp
    moreover have "\<not> list_ex blocking_event (Ev_frontswap_load_async # evs)"
      using nb by simp
    ultimately show ?thesis by fastforce
  qed
qed

theorem readpage_async_never_blocks_witness:
  "PG_swapcache (pg state5) \<and> PG_locked (pg state5) \<and> \<not> PG_uptodate (pg state5) \<and>
   (\<exists>r. swap_readpage_async blk_env state5 = Some r \<and>
       (case r of
          Inl b \<Rightarrow> True
        | Inr x \<Rightarrow> \<exists>evs. trace (snd x) = trace state5 @ evs \<and>
                        \<not> list_ex blocking_event evs))"
  using readpage_async_never_blocks [of blk_env state5]
  by (simp add: inputs)

subsection \<open>The blocking read\<close>

lemma poll_wait_pending:
  assumes ret: "poll_wait e i s = Some y"
  shows "completes_after e = None \<longrightarrow>
         (\<exists>b t. req s = Some b \<and> bi_private b = Some t) \<longrightarrow> False"
proof (rule poll_wait.raw_induct
    [where P = "\<lambda>e i s y. completes_after e = None \<longrightarrow>
                  (\<exists>b t. req s = Some b \<and> bi_private b = Some t) \<longrightarrow> False",
     OF _ ret], goal_cases)
  case (1 f e i s y)
  show ?case
  proof (intro impI)
    assume never: "completes_after e = None"
      and pend: "\<exists>b t. req s = Some b \<and> bi_private b = Some t"
    then obtain b t where b: "req s = Some b" "bi_private b = Some t" by blast
    let ?s = "(if \<not> blk_poll e i then ev Ev_io_schedule else id)
                (ev Ev_blk_poll (ev (Ev_set_current_state TASK_UNINTERRUPTIBLE) s))"
    from 1(2) never b have "f e (Suc i) ?s = Some y"
      by (simp add: Let_def ev_def split: if_splits)
    moreover have "req ?s = Some b" by (simp add: ev_def b)
    ultimately show False using 1(1) [of e "Suc i" ?s y] never b by blast
  qed
qed

lemma poll_wait_never:
  assumes "completes_after e = None" and "req s = Some b" and "bi_private b = Some t"
  shows "poll_wait e i s = None"
proof (cases "poll_wait e i s")
  case None
  then show ?thesis .
next
  case (Some y)
  with assms poll_wait_pending [of e i s y] show ?thesis by blast
qed

lemma poll_wait_completes:
  assumes c: "completes_after e = Some k"
  shows "i \<le> k \<Longrightarrow> req s = Some b \<Longrightarrow> bi_private b = Some t \<Longrightarrow>
         bi_end_io b = END_SWAP_BIO_READ \<Longrightarrow>
         poll_wait e i s =
           Some (ev (Ev_set_current_state TASK_UNINTERRUPTIBLE)
                  (bio_endio e (completion_status e)
                     (s\<lparr>trace := trace s @ poll_rounds e i (k - i)\<rparr>)))"
proof (induction "k - i" arbitrary: i s)
  case 0
  then have ik: "i = k" by simp
  have priv: "case req (end_swap_bio_read e (b\<lparr>bi_status := completion_status e\<rparr>)
                    (ev (Ev_bio_endio (completion_status e))
                       (s\<lparr>req := Some (b\<lparr>bi_status := completion_status e\<rparr>)\<rparr>)))
              of None \<Rightarrow> True | Some bio \<Rightarrow> bi_private bio = None"
    by (simp add: end_swap_bio_read_parts(3) split: option.splits)
  show ?case
    apply (subst poll_wait.simps)
    using 0 c ik priv
    apply (simp add: Let_def bio_endio_def)
    apply (simp add: ev_def)
    done
next
  case (Suc n)
  then have lt: "i < k" and n: "n = k - Suc i" by simp_all
  let ?s = "(if \<not> blk_poll e i then ev Ev_io_schedule else id)
              (ev Ev_blk_poll (ev (Ev_set_current_state TASK_UNINTERRUPTIBLE) s))"
  have r: "req ?s = Some b" using Suc.prems by (simp add: ev_def)
  have "poll_wait e i s = poll_wait e (Suc i) ?s"
    apply (subst poll_wait.simps)
    using lt c Suc.prems
    apply (simp add: Let_def ev_def)
    done
  also have "\<dots> = Some (ev (Ev_set_current_state TASK_UNINTERRUPTIBLE)
                  (bio_endio e (completion_status e)
                     (?s\<lparr>trace := trace ?s @ poll_rounds e (Suc i) (k - Suc i)\<rparr>)))"
    using Suc.hyps(1) [OF n _ r Suc.prems(3) Suc.prems(4)] lt by simp
  also have "?s\<lparr>trace := trace ?s @ poll_rounds e (Suc i) (k - Suc i)\<rparr> =
             s\<lparr>trace := trace s @ poll_rounds e i (k - i)\<rparr>"
  proof -
    have "k - i = Suc (k - Suc i)" using lt by simp
    then show ?thesis by (simp add: ev_def)
  qed
  finally show ?case .
qed


lemma bio_endio_read:
  assumes "req s = Some b" and "bi_end_io b = END_SWAP_BIO_READ"
  shows "bio_endio e st s =
           end_swap_bio_read e (b\<lparr>bi_status := st\<rparr>)
             (ev (Ev_bio_endio st) (s\<lparr>req := Some (b\<lparr>bi_status := st\<rparr>)\<rparr>))"
  using assms by (simp add: bio_endio_def Let_def)

lemma slot_free_notify_frame:
  "PG_locked (pg (swap_slot_free_notify e s)) = PG_locked (pg s)"
  "PG_error (pg (swap_slot_free_notify e s)) = PG_error (pg s)"
  "req (swap_slot_free_notify e s) = req s"
  "\<exists>evs. trace (swap_slot_free_notify e s) = trace s @ evs"
  by (simp_all add: swap_slot_free_notify_def SetPageDirty_def ev_def Let_def)

lemma blocking_read_unfold:
  assumes "PG_locked (pg s)" "\<not> PG_uptodate (pg s)"
    and "frontswap_load e (pg s) = (r1, p1)" "r1 \<noteq> 0"
    and "SWP_FS \<notin> sis_flags (page_swap_info e)"
    and "bdev_read_page e (swap_page_sector p1) p1 = (r2, p2)" "r2 \<noteq> 0"
    and "bio_alloc e"
  shows "swap_readpage e True s =
           (case poll_wait e 0
                   (s\<lparr>pg := p2, PSWPIN := PSWPIN s + 1, req := Some (submitted_read e p2),
                      trace := trace s @ [Ev_frontswap_load, Ev_psi_memstall_enter,
                        Ev_bdev_read_page (swap_page_sector p1), Ev_map_swap_page,
                        Ev_get_task_struct (current_task e), Ev_bio_get,
                        Ev_submit_bio (submitted_read e p2)]\<rparr>) of
              None \<Rightarrow> None
            | Some s \<Rightarrow>
                Some (Inr (0, ev Ev_psi_memstall_leave
                                (bio_put (ev (Ev_set_current_state TASK_RUNNING) s)))))"
  using assms
  by (simp add: swap_readpage_def swap_read_io_def get_swap_bio_def submitted_read_def
        prims Let_def numeral_2_eq_2 split: option.split)


lemma read_handler_result:
  fixes e :: env and b :: bio and s :: kstate and st :: "8 word"
  assumes r: "req s = Some b" and cnt: "bi_cnt b = 2" and w: "bi_private b = Some t"
  defines "h \<equiv> end_swap_bio_read e (b\<lparr>bi_status := st\<rparr>)
                 (ev (Ev_bio_endio st) (s\<lparr>req := Some (b\<lparr>bi_status := st\<rparr>)\<rparr>))"
  shows "\<not> PG_locked (pg h)"
    and "if st \<noteq> 0 then PG_error (pg h) \<and> \<not> PG_uptodate (pg h) else PG_uptodate (pg h)"
    and "req h = Some (b\<lparr>bi_status := st, bi_private := None, bi_cnt := 1\<rparr>)"
    and "\<exists>handler. trace h = trace s @ [Ev_bio_endio st] @ handler @
           [Ev_unlock_page, Ev_clear_bi_private, Ev_bio_put,
            Ev_blk_wake_io_task t, Ev_put_task_struct t]"
proof -
  let ?s = "ev (Ev_bio_endio st) (s\<lparr>req := Some (b\<lparr>bi_status := st\<rparr>)\<rparr>)"
  let ?m = "if st \<noteq> 0 then ev Ev_pr_alert (ClearPageUptodate (SetPageError ?s))
            else swap_slot_free_notify e (SetPageUptodate ?s)"
  note parts = end_swap_bio_read_parts [of e "b\<lparr>bi_status := st\<rparr>" ?s, folded h_def]
  show "\<not> PG_locked (pg h)" by (simp add: parts(1))
  show "if st \<noteq> 0 then PG_error (pg h) \<and> \<not> PG_uptodate (pg h) else PG_uptodate (pg h)"
    by (simp add: parts(1) slot_free_notify_keeps prims)
  have rm: "req ?m = Some (b\<lparr>bi_status := st\<rparr>)"
    by (simp add: slot_free_notify_frame(3) prims)
  show "req h = Some (b\<lparr>bi_status := st, bi_private := None, bi_cnt := 1\<rparr>)"
    using cnt by (simp add: parts(3) slot_free_notify_frame(3) prims)
  have "\<exists>handler. trace ?m = trace s @ [Ev_bio_endio st] @ handler"
  proof (cases "st \<noteq> 0")
    case True
    then show ?thesis by (simp add: prims)
  next
    case False
    from slot_free_notify_frame(4) [of e "SetPageUptodate ?s"] obtain evs where
      "trace (swap_slot_free_notify e (SetPageUptodate ?s)) = trace (SetPageUptodate ?s) @ evs"
      by blast
    with False show ?thesis by (simp add: prims)
  qed
  then obtain handler where "trace ?m = trace s @ [Ev_bio_endio st] @ handler" by blast
  then have "trace h = trace s @ [Ev_bio_endio st] @ handler @
           [Ev_unlock_page, Ev_clear_bi_private, Ev_bio_put,
            Ev_blk_wake_io_task t, Ev_put_task_struct t]"
    unfolding parts(2) using w by simp
  then show "\<exists>handler. trace h = trace s @ [Ev_bio_endio st] @ handler @
           [Ev_unlock_page, Ev_clear_bi_private, Ev_bio_put,
            Ev_blk_wake_io_task t, Ev_put_task_struct t]" by blast
qed

text \<open>
  C5. A blocking read (\<^verbatim>\<open>synchronous\<close> true) that takes the generic request path
  (the front-end cache misses, the store is not filesystem-backed, the device's
  single-page shortcut declines, a request can be allocated): if the request never
  completes the call never returns; if the block layer completes it after \<open>k\<close>
  rounds of the loop, the call returns 0, and between submitting the request and
  returning it has gone through exactly those \<open>k\<close> rounds (poll, and suspend when
  the poll found nothing), then the handler has run (ending with unlock, clearing
  \<^verbatim>\<open>bi_private\<close>, releasing the request, waking the caller), and only then the caller
  leaves the loop. On return the page is unlocked and its error and uptodate flags are
  final: error and not uptodate after a failure, uptodate after a success.
\<close>

theorem blocking_read_returns_after_completion:
  assumes "PG_locked (pg s)" "\<not> PG_uptodate (pg s)"
    and "frontswap_load e (pg s) = (r1, p1)" "r1 \<noteq> 0"
    and "SWP_FS \<notin> sis_flags (page_swap_info e)"
    and "bdev_read_page e (swap_page_sector p1) p1 = (r2, p2)" "r2 \<noteq> 0"
    and "bio_alloc e"
  shows "(completes_after e = None \<longrightarrow> swap_readpage e True s = None) \<and>
         (\<forall>k. completes_after e = Some k \<longrightarrow>
            (\<exists>s' handler.
               swap_readpage e True s = Some (Inr (0, s')) \<and>
               trace s' = trace s @
                 [Ev_frontswap_load, Ev_psi_memstall_enter,
                  Ev_bdev_read_page (swap_page_sector p1), Ev_map_swap_page,
                  Ev_get_task_struct (current_task e), Ev_bio_get,
                  Ev_submit_bio (submitted_read e p2)] @
                 poll_rounds e 0 k @
                 [Ev_bio_endio (completion_status e)] @ handler @
                 [Ev_unlock_page, Ev_clear_bi_private, Ev_bio_put,
                  Ev_blk_wake_io_task (current_task e), Ev_put_task_struct (current_task e),
                  Ev_set_current_state TASK_UNINTERRUPTIBLE,
                  Ev_set_current_state TASK_RUNNING, Ev_bio_put, Ev_psi_memstall_leave] \<and>
               \<not> PG_locked (pg s') \<and>
               (if completion_status e \<noteq> 0 then PG_error (pg s') \<and> \<not> PG_uptodate (pg s')
                else PG_uptodate (pg s')) \<and>
               req s' = None))"
proof (intro conjI impI allI)
  let ?b = "submitted_read e p2"
  let ?pre = "[Ev_frontswap_load, Ev_psi_memstall_enter,
                Ev_bdev_read_page (swap_page_sector p1), Ev_map_swap_page,
                Ev_get_task_struct (current_task e), Ev_bio_get, Ev_submit_bio ?b]"
  let ?sub = "s\<lparr>pg := p2, PSWPIN := PSWPIN s + 1, req := Some ?b, trace := trace s @ ?pre\<rparr>"
  note unf = blocking_read_unfold [OF assms]
  have b: "req ?sub = Some ?b" "bi_private ?b = Some (current_task e)"
    "bi_end_io ?b = END_SWAP_BIO_READ" "bi_cnt ?b = 2"
    by (simp_all add: submitted_read_def)
  {
    assume "completes_after e = None"
    then have "poll_wait e 0 ?sub = None"
      using b(1,2) by (rule poll_wait_never)
    then show "swap_readpage e True s = None"
      unfolding unf by simp
  }
  {
    fix k
    assume c: "completes_after e = Some k"
    let ?st = "completion_status e"
    let ?polled = "?sub\<lparr>trace := trace ?sub @ poll_rounds e 0 k\<rparr>"
    let ?h = "end_swap_bio_read e (?b\<lparr>bi_status := ?st\<rparr>)
                 (ev (Ev_bio_endio ?st) (?polled\<lparr>req := Some (?b\<lparr>bi_status := ?st\<rparr>)\<rparr>))"
    have rp: "req ?polled = Some ?b" by simp
    have "poll_wait e 0 ?sub =
            Some (ev (Ev_set_current_state TASK_UNINTERRUPTIBLE) (bio_endio e ?st ?polled))"
      using poll_wait_completes [OF c _ b(1) b(2) b(3), of 0] by simp
    also have "bio_endio e ?st ?polled = ?h"
      using rp b(3) by (rule bio_endio_read)
    finally have pw: "poll_wait e 0 ?sub =
            Some (ev (Ev_set_current_state TASK_UNINTERRUPTIBLE) ?h)" .
    let ?s' = "ev Ev_psi_memstall_leave
                 (bio_put (ev (Ev_set_current_state TASK_RUNNING)
                    (ev (Ev_set_current_state TASK_UNINTERRUPTIBLE) ?h)))"
    note hr = read_handler_result [OF rp b(4) b(2), where e = e and st = ?st]
    from hr(4) obtain handler where
      th: "trace ?h = trace ?polled @ [Ev_bio_endio ?st] @ handler @
           [Ev_unlock_page, Ev_clear_bi_private, Ev_bio_put,
            Ev_blk_wake_io_task (current_task e), Ev_put_task_struct (current_task e)]"
      by blast
    have ret: "swap_readpage e True s = Some (Inr (0, ?s'))"
      unfolding unf pw by simp
    have tr: "trace ?s' = trace s @ ?pre @ poll_rounds e 0 k @ [Ev_bio_endio ?st] @ handler @
                 [Ev_unlock_page, Ev_clear_bi_private, Ev_bio_put,
                  Ev_blk_wake_io_task (current_task e), Ev_put_task_struct (current_task e),
                  Ev_set_current_state TASK_UNINTERRUPTIBLE,
                  Ev_set_current_state TASK_RUNNING, Ev_bio_put, Ev_psi_memstall_leave]"
      using th by (simp add: ev_def bio_put_def)
    have pgs: "pg ?s' = pg ?h" by (simp add: ev_def bio_put_def)
    have rq: "req ?s' = None" using hr(3) by (simp add: ev_def bio_put_def)
    show "\<exists>s' handler.
               swap_readpage e True s = Some (Inr (0, s')) \<and>
               trace s' = trace s @ ?pre @
                 poll_rounds e 0 k @
                 [Ev_bio_endio (completion_status e)] @ handler @
                 [Ev_unlock_page, Ev_clear_bi_private, Ev_bio_put,
                  Ev_blk_wake_io_task (current_task e), Ev_put_task_struct (current_task e),
                  Ev_set_current_state TASK_UNINTERRUPTIBLE,
                  Ev_set_current_state TASK_RUNNING, Ev_bio_put, Ev_psi_memstall_leave] \<and>
               \<not> PG_locked (pg s') \<and>
               (if completion_status e \<noteq> 0 then PG_error (pg s') \<and> \<not> PG_uptodate (pg s')
                else PG_uptodate (pg s')) \<and>
               req s' = None"
      using ret tr hr(1) hr(2) rq unfolding pgs [symmetric] by blast
  }
qed

theorem blocking_read_returns_after_completion_witness:
  "PG_locked (pg state5) \<and> \<not> PG_uptodate (pg state5) \<and>
   frontswap_load blk_env (pg state5) = (- 1, page5) \<and>
   SWP_FS \<notin> sis_flags (page_swap_info blk_env) \<and>
   bdev_read_page blk_env (swap_page_sector page5) page5 = (- 95, page5) \<and>
   bio_alloc blk_env \<and>
   completes_after blk_env = Some 2 \<and>
   (\<exists>s' handler.
      swap_readpage blk_env True state5 = Some (Inr (0, s')) \<and>
      trace s' = trace state5 @
        [Ev_frontswap_load, Ev_psi_memstall_enter,
         Ev_bdev_read_page (swap_page_sector page5), Ev_map_swap_page,
         Ev_get_task_struct (current_task blk_env), Ev_bio_get,
         Ev_submit_bio (submitted_read blk_env page5)] @
        poll_rounds blk_env 0 2 @
        [Ev_bio_endio (completion_status blk_env)] @ handler @
        [Ev_unlock_page, Ev_clear_bi_private, Ev_bio_put,
         Ev_blk_wake_io_task (current_task blk_env), Ev_put_task_struct (current_task blk_env),
         Ev_set_current_state TASK_UNINTERRUPTIBLE,
         Ev_set_current_state TASK_RUNNING, Ev_bio_put, Ev_psi_memstall_leave] \<and>
      \<not> PG_locked (pg s') \<and>
      (if completion_status blk_env \<noteq> 0 then PG_error (pg s') \<and> \<not> PG_uptodate (pg s')
       else PG_uptodate (pg s')) \<and>
      req s' = None) \<and>
   completes_after (blk_env\<lparr>completes_after := None\<rparr>) = None \<and>
   swap_readpage (blk_env\<lparr>completes_after := None\<rparr>) True state5 = None"
proof -
  let ?never = "blk_env\<lparr>completes_after := None\<rparr>"
  have h: "PG_locked (pg state5)" "\<not> PG_uptodate (pg state5)"
    "frontswap_load blk_env (pg state5) = (- 1, page5)"
    "SWP_FS \<notin> sis_flags (page_swap_info blk_env)"
    "bdev_read_page blk_env (swap_page_sector page5) page5 = (- 95, page5)"
    "bio_alloc blk_env"
    by (simp_all add: inputs)
  have n: "frontswap_load ?never (pg state5) = (- 1, page5)"
    "SWP_FS \<notin> sis_flags (page_swap_info ?never)"
    "bdev_read_page ?never (swap_page_sector page5) page5 = (- 95, page5)"
    "bio_alloc ?never"
    by (simp_all add: inputs)
  have c: "completes_after blk_env = Some 2" "completes_after ?never = None"
    by (simp_all add: inputs)
  note a = blocking_read_returns_after_completion [OF h(1) h(2) h(3) _ h(4) h(5) _ h(6)]
  note b = blocking_read_returns_after_completion [OF h(1) h(2) n(1) _ n(2) n(3) _ n(4)]
  from a c(1) have fin: "\<exists>s' handler.
      swap_readpage blk_env True state5 = Some (Inr (0, s')) \<and>
      trace s' = trace state5 @
        [Ev_frontswap_load, Ev_psi_memstall_enter,
         Ev_bdev_read_page (swap_page_sector page5), Ev_map_swap_page,
         Ev_get_task_struct (current_task blk_env), Ev_bio_get,
         Ev_submit_bio (submitted_read blk_env page5)] @
        poll_rounds blk_env 0 2 @
        [Ev_bio_endio (completion_status blk_env)] @ handler @
        [Ev_unlock_page, Ev_clear_bi_private, Ev_bio_put,
         Ev_blk_wake_io_task (current_task blk_env), Ev_put_task_struct (current_task blk_env),
         Ev_set_current_state TASK_UNINTERRUPTIBLE,
         Ev_set_current_state TASK_RUNNING, Ev_bio_put, Ev_psi_memstall_leave] \<and>
      \<not> PG_locked (pg s') \<and>
      (if completion_status blk_env \<noteq> 0 then PG_error (pg s') \<and> \<not> PG_uptodate (pg s')
       else PG_uptodate (pg s')) \<and>
      req s' = None"
    by simp
  from b c(2) have never: "swap_readpage ?never True state5 = None"
    by simp
  show ?thesis using h c fin never by simp
qed

subsection \<open>The page lock on exit\<close>










subsection \<open>The sector of a transfer\<close>

lemma fast_sectors_append: "fast_sectors (xs @ ys) = fast_sectors xs @ fast_sectors ys"
  by (induction xs rule: fast_sectors.induct) simp_all

lemma bio_sectors_append: "bio_sectors (xs @ ys) = bio_sectors xs @ bio_sectors ys"
  by (induction xs rule: bio_sectors.induct) simp_all

lemma poll_rounds_sectors:
  "fast_sectors (poll_rounds e i n) = []" "bio_sectors (poll_rounds e i n) = []"
  by (induction n arbitrary: i) simp_all

lemma slot_free_notify_sectors:
  "\<exists>evs. trace (swap_slot_free_notify e s) = trace s @ evs \<and>
         fast_sectors evs = [] \<and> bio_sectors evs = []"
  by (simp add: swap_slot_free_notify_def SetPageDirty_def ev_def Let_def)

lemma read_handler_sectors:
  assumes "req s = Some b" and "bi_end_io b = END_SWAP_BIO_READ"
  shows "\<exists>evs. trace (bio_endio e st s) = trace s @ evs \<and>
           fast_sectors evs = [] \<and> bio_sectors evs = []"
proof -
  let ?s = "ev (Ev_bio_endio st) (s\<lparr>req := Some (b\<lparr>bi_status := st\<rparr>)\<rparr>)"
  let ?m = "if bi_status (b\<lparr>bi_status := st\<rparr>) \<noteq> 0
            then ev Ev_pr_alert (ClearPageUptodate (SetPageError ?s))
            else swap_slot_free_notify e (SetPageUptodate ?s)"
  have "\<exists>evs. trace ?m = trace s @ evs \<and> fast_sectors evs = [] \<and> bio_sectors evs = []"
  proof (cases "st \<noteq> 0")
    case True
    then show ?thesis by (simp add: prims)
  next
    case False
    from slot_free_notify_sectors [of e "SetPageUptodate ?s"] obtain evs where
      "trace (swap_slot_free_notify e (SetPageUptodate ?s)) = trace (SetPageUptodate ?s) @ evs"
      "fast_sectors evs = []" "bio_sectors evs = []"
      by blast
    with False show ?thesis by (simp add: prims)
  qed
  then obtain evs where m: "trace ?m = trace s @ evs" "fast_sectors evs = []"
    "bio_sectors evs = []" by blast
  have "trace (bio_endio e st s) = trace s @ (evs @ [Ev_unlock_page, Ev_clear_bi_private, Ev_bio_put] @
           (case bi_private b of None \<Rightarrow> []
            | Some t \<Rightarrow> [Ev_blk_wake_io_task t, Ev_put_task_struct t]))"
    unfolding bio_endio_read [OF assms] end_swap_bio_read_parts(2) using m(1) by simp
  moreover have "fast_sectors (evs @ [Ev_unlock_page, Ev_clear_bi_private, Ev_bio_put] @
           (case bi_private b of None \<Rightarrow> []
            | Some t \<Rightarrow> [Ev_blk_wake_io_task t, Ev_put_task_struct t])) = []"
    using m(2) by (simp add: fast_sectors_append split: option.split)
  moreover have "bio_sectors (evs @ [Ev_unlock_page, Ev_clear_bi_private, Ev_bio_put] @
           (case bi_private b of None \<Rightarrow> []
            | Some t \<Rightarrow> [Ev_blk_wake_io_task t, Ev_put_task_struct t])) = []"
    using m(3) by (simp add: bio_sectors_append split: option.split)
  ultimately show ?thesis by blast
qed

lemma poll_wait_sectors:
  assumes r: "req s = Some b" and w: "bi_private b = Some t"
    and h: "bi_end_io b = END_SWAP_BIO_READ"
    and ret: "poll_wait e i s = Some s'" and i: "i = 0"
  shows "\<exists>evs. trace s' = trace s @ evs \<and> fast_sectors evs = [] \<and> bio_sectors evs = []"
proof (cases "completes_after e")
  case None
  from poll_wait_never [OF None r w, of i] ret show ?thesis by simp
next
  case (Some k)
  let ?polled = "s\<lparr>trace := trace s @ poll_rounds e 0 k\<rparr>"
  have rp: "req ?polled = Some b" using r by simp
  from read_handler_sectors [OF rp h, of e "completion_status e"] obtain evs where
    evs: "trace (bio_endio e (completion_status e) ?polled) = trace ?polled @ evs"
    "fast_sectors evs = []" "bio_sectors evs = []"
    by blast
  have s': "s' = ev (Ev_set_current_state TASK_UNINTERRUPTIBLE)
                       (bio_endio e (completion_status e) ?polled)"
    using poll_wait_completes [OF Some _ r w h, of 0] ret i by simp
  have "trace s' = trace s @ (poll_rounds e 0 k @ evs @
                     [Ev_set_current_state TASK_UNINTERRUPTIBLE])"
    unfolding s' using evs(1) by (simp add: ev_def)
  moreover have "fast_sectors (poll_rounds e 0 k @ evs @
                     [Ev_set_current_state TASK_UNINTERRUPTIBLE]) = []"
    using evs(2) by (simp add: fast_sectors_append poll_rounds_sectors)
  moreover have "bio_sectors (poll_rounds e 0 k @ evs @
                     [Ev_set_current_state TASK_UNINTERRUPTIBLE]) = []"
    using evs(3) by (simp add: bio_sectors_append poll_rounds_sectors)
  ultimately show ?thesis by blast
qed


lemma write_sectors:
  assumes nfs: "SWP_FS \<notin> sis_flags (page_swap_info e)"
    and ret: "raw_swap_writepage e wbc end_write_func s = Inr (ret, s')"
  shows "\<exists>evs. trace s' = trace s @ evs \<and>
           fast_sectors evs = [push_bit (unat (PAGE_SHIFT - 9)) (swp_offset (page_private (pg s)))] \<and>
           (bio_sectors evs = [] \<and> Ev_map_swap_page \<notin> set evs \<or>
            bio_sectors evs =
              [push_bit (unat (PAGE_SHIFT - 9))
                 (fst (map_swap_page e (snd (bdev_write_page e (swap_page_sector (pg s)) (pg s)))))] \<and>
            Ev_map_swap_page \<in> set evs)"
  using assms
  by (auto simp: raw_swap_writepage_def get_swap_bio_def prims Let_def swap_page_sector_def
        page_file_index_def split: if_splits)

lemma read_sectors:
  assumes nfs: "SWP_FS \<notin> sis_flags (page_swap_info e)"
    and ret: "swap_read_io e synchronous s = Some (ret, s')"
  shows "\<exists>evs. trace s' = trace s @ evs \<and>
           fast_sectors evs = [push_bit (unat (PAGE_SHIFT - 9)) (swp_offset (page_private (pg s)))] \<and>
           (bio_sectors evs = [] \<and> Ev_map_swap_page \<notin> set evs \<or>
            bio_sectors evs =
              [push_bit (unat (PAGE_SHIFT - 9))
                 (fst (map_swap_page e (snd (bdev_read_page e (swap_page_sector (pg s)) (pg s)))))] \<and>
            Ev_map_swap_page \<in> set evs)"
proof -
  define sector where "sector = swap_page_sector (pg s)"
  define r2 where "r2 = fst (bdev_read_page e sector (pg s))"
  define p2 where "p2 = snd (bdev_read_page e sector (pg s))"
  have sec: "sector = push_bit (unat (PAGE_SHIFT - 9)) (swp_offset (page_private (pg s)))"
    by (simp add: sector_def swap_page_sector_def page_file_index_def)
  consider (fast) "r2 = 0" | (nomem) "r2 \<noteq> 0" "\<not> bio_alloc e"
    | (async) "r2 \<noteq> 0" "bio_alloc e" "\<not> synchronous"
    | (sync) "r2 \<noteq> 0" "bio_alloc e" "synchronous"
    by blast
  then show ?thesis
  proof cases
    case fast
    with ret nfs show ?thesis
      by (auto simp: swap_read_io_def swap_slot_free_notify_def prims Let_def
            r2_def p2_def sector_def swap_page_sector_def page_file_index_def
          split: if_splits)
  next
    case nomem
    with ret nfs show ?thesis
      by (auto simp: swap_read_io_def get_swap_bio_def prims Let_def r2_def sector_def
            swap_page_sector_def page_file_index_def split: if_splits)
  next
    case async
    with ret nfs show ?thesis
      by (auto simp: swap_read_io_def get_swap_bio_def prims Let_def r2_def sector_def
            swap_page_sector_def page_file_index_def split: if_splits)
  next
    case sync
    let ?b = "submitted_read e p2"
    let ?pre = "[Ev_psi_memstall_enter, Ev_bdev_read_page sector,
                      Ev_map_swap_page, Ev_get_task_struct (current_task e), Ev_bio_get,
                      Ev_submit_bio ?b]"
    let ?sub = "s\<lparr>pg := p2, PSWPIN := PSWPIN s + 1, req := Some ?b,
                    trace := trace s @ ?pre\<rparr>"
    have unf: "swap_read_io e True s =
              (case poll_wait e 0 ?sub of
                 None \<Rightarrow> None
               | Some s \<Rightarrow> Some (0, ev Ev_psi_memstall_leave
                                    (bio_put (ev (Ev_set_current_state TASK_RUNNING) s))))"
      using sync nfs
      by (simp add: swap_read_io_def get_swap_bio_def submitted_read_def prims Let_def
            numeral_2_eq_2 r2_def p2_def sector_def split: option.split)
    from ret sync unf obtain s'' where
      pw: "poll_wait e 0 ?sub = Some s''" and
      s': "s' = ev Ev_psi_memstall_leave (bio_put (ev (Ev_set_current_state TASK_RUNNING) s''))"
      by (auto split: option.splits)
    have b: "req ?sub = Some ?b" "bi_private ?b = Some (current_task e)"
      "bi_end_io ?b = END_SWAP_BIO_READ"
      by (simp_all add: submitted_read_def)
    from poll_wait_sectors [OF b(1) b(2) b(3) pw refl] obtain evs where
      evs: "trace s'' = trace ?sub @ evs" "fast_sectors evs = []" "bio_sectors evs = []"
      by blast
    let ?all = "?pre @ evs @ [Ev_set_current_state TASK_RUNNING, Ev_bio_put, Ev_psi_memstall_leave]"
    have "trace s' = trace s @ ?all"
      unfolding s' using evs(1) by (simp add: ev_def bio_put_def)
    moreover have "fast_sectors ?all = [sector]"
      using evs(2) by (simp add: fast_sectors_append)
    moreover have "bio_sectors ?all = [bi_sector ?b]"
      using evs(3) by (simp add: bio_sectors_append)
    moreover have "bi_sector ?b = push_bit (unat (PAGE_SHIFT - 9)) (fst (map_swap_page e p2))"
      by (simp add: submitted_read_def)
    moreover have "Ev_map_swap_page \<in> set ?all" by simp
    ultimately show ?thesis
      unfolding sec [symmetric] p2_def sector_def [symmetric] by metis
  qed
qed

text \<open>
  C7, as amended. On a raw block device the lookup \<^verbatim>\<open>map_swap_page\<close> answers, for a
  page with the swap entry of the page at hand, the slot itself (the device's single
  extent maps every slot to the block of the same number), and the shortcuts
  \<^verbatim>\<open>bdev_write_page\<close> and \<^verbatim>\<open>bdev_read_page\<close> leave the swap entry of the page
  alone. Then each write through \<^verbatim>\<open>__swap_writepage\<close> and each read hands the
  device's single-page shortcut exactly one sector, the page's slot index shifted left by
  \<^verbatim>\<open>PAGE_SHIFT - 9\<close>, computed from the page alone. Either no request is submitted and
  \<^verbatim>\<open>map_swap_page\<close> is not called, or one request is submitted, for the same sector,
  and \<^verbatim>\<open>map_swap_page\<close> has been called: the sector of a request is the shifted answer
  of a lookup made at transfer time.
\<close>

theorem transfer_sectors:
  assumes blk: "SWP_BLKDEV \<in> sis_flags (page_swap_info e)"
    and nfs: "SWP_FS \<notin> sis_flags (page_swap_info e)"
    and ident: "\<forall>p. page_private p = page_private (pg s) \<longrightarrow>
                  fst (map_swap_page e p) = swp_offset (page_private (pg s))"
    and keepw: "\<forall>sector p. page_private (snd (bdev_write_page e sector p)) = page_private p"
    and keepr: "\<forall>sector p. page_private (snd (bdev_read_page e sector p)) = page_private p"
  shows "(\<forall>ret s'. raw_swap_writepage e wbc end_write_func s = Inr (ret, s') \<longrightarrow>
           (\<exists>evs. trace s' = trace s @ evs \<and>
              fast_sectors evs =
                [push_bit (unat (PAGE_SHIFT - 9)) (swp_offset (page_private (pg s)))] \<and>
              (bio_sectors evs = [] \<and> Ev_map_swap_page \<notin> set evs \<or>
               bio_sectors evs =
                 [push_bit (unat (PAGE_SHIFT - 9)) (swp_offset (page_private (pg s)))] \<and>
               Ev_map_swap_page \<in> set evs))) \<and>
         (\<forall>ret s'. swap_read_io e synchronous s = Some (ret, s') \<longrightarrow>
           (\<exists>evs. trace s' = trace s @ evs \<and>
              fast_sectors evs =
                [push_bit (unat (PAGE_SHIFT - 9)) (swp_offset (page_private (pg s)))] \<and>
              (bio_sectors evs = [] \<and> Ev_map_swap_page \<notin> set evs \<or>
               bio_sectors evs =
                 [push_bit (unat (PAGE_SHIFT - 9)) (swp_offset (page_private (pg s)))] \<and>
               Ev_map_swap_page \<in> set evs)))"
proof -
  have w: "fst (map_swap_page e (snd (bdev_write_page e (swap_page_sector (pg s)) (pg s)))) =
           swp_offset (page_private (pg s))"
    using ident keepw by simp
  have r: "fst (map_swap_page e (snd (bdev_read_page e (swap_page_sector (pg s)) (pg s)))) =
           swp_offset (page_private (pg s))"
    using ident keepr by simp
  show ?thesis
    using write_sectors [OF nfs, of wbc end_write_func s] read_sectors [OF nfs, of synchronous s]
    unfolding w r by blast
qed

theorem transfer_sectors_witness:
  "SWP_BLKDEV \<in> sis_flags (page_swap_info blk_env) \<and>
   SWP_FS \<notin> sis_flags (page_swap_info blk_env) \<and>
   fst (map_swap_page blk_env page5) = swp_offset (page_private (pg state5)) \<and>
   push_bit (unat (PAGE_SHIFT - 9)) (swp_offset (page_private (pg state5))) = (40 :: sector_t) \<and>
   (\<exists>s' evs. raw_swap_writepage blk_env {} END_SWAP_BIO_WRITE state5 = Inr (0, s') \<and>
      trace s' = trace state5 @ evs \<and> fast_sectors evs = [40] \<and> bio_sectors evs = [40] \<and>
      Ev_map_swap_page \<in> set evs) \<and>
   (\<exists>s' evs. swap_read_io blk_env False state5 = Some (0, s') \<and>
      trace s' = trace state5 @ evs \<and> fast_sectors evs = [40] \<and> bio_sectors evs = [40] \<and>
      Ev_map_swap_page \<in> set evs) \<and>
   (\<exists>s' evs. raw_swap_writepage fast_env {} END_SWAP_BIO_WRITE state5 = Inr (0, s') \<and>
      trace s' = trace state5 @ evs \<and> fast_sectors evs = [40] \<and> bio_sectors evs = [] \<and>
      Ev_map_swap_page \<notin> set evs)"
proof -
  have blk: "SWP_BLKDEV \<in> sis_flags (page_swap_info blk_env)"
    and nfs: "SWP_FS \<notin> sis_flags (page_swap_info blk_env)"
    and ident: "\<forall>p. page_private p = page_private (pg state5) \<longrightarrow>
                  fst (map_swap_page blk_env p) = swp_offset (page_private (pg state5))"
    and keepw: "\<forall>sector p. page_private (snd (bdev_write_page blk_env sector p)) =
                  page_private p"
    and keepr: "\<forall>sector p. page_private (snd (bdev_read_page blk_env sector p)) =
                  page_private p"
    by (simp_all add: inputs)
  note t = transfer_sectors [OF blk nfs ident keepw keepr, of "{}" END_SWAP_BIO_WRITE]
  have fblk: "SWP_BLKDEV \<in> sis_flags (page_swap_info fast_env)"
    and fnfs: "SWP_FS \<notin> sis_flags (page_swap_info fast_env)"
    and fident: "\<forall>p. page_private p = page_private (pg state5) \<longrightarrow>
                  fst (map_swap_page fast_env p) = swp_offset (page_private (pg state5))"
    and fkeepw: "\<forall>sector p. page_private (snd (bdev_write_page fast_env sector p)) =
                  page_private p"
    and fkeepr: "\<forall>sector p. page_private (snd (bdev_read_page fast_env sector p)) =
                  page_private p"
    by (simp_all add: inputs)
  note f = transfer_sectors [OF fblk fnfs fident fkeepw fkeepr, of "{}" END_SWAP_BIO_WRITE False]
  have v: "fst (map_swap_page blk_env page5) = swp_offset (page_private (pg state5))"
    "push_bit (unat (PAGE_SHIFT - 9)) (swp_offset (page_private (pg state5))) = (40 :: sector_t)"
    by (simp_all add: inputs)
  have w: "\<exists>s'. raw_swap_writepage blk_env {} END_SWAP_BIO_WRITE state5 = Inr (0, s') \<and>
             Ev_map_swap_page \<in> set (trace s')"
    by (simp add: raw_swap_writepage_def get_swap_bio_def prims Let_def inputs)
  have r: "\<exists>s'. swap_read_io blk_env False state5 = Some (0, s') \<and>
             Ev_map_swap_page \<in> set (trace s')"
    by (simp add: swap_read_io_def get_swap_bio_def prims Let_def inputs)
  have fw: "\<exists>s'. raw_swap_writepage fast_env {} END_SWAP_BIO_WRITE state5 = Inr (0, s') \<and>
             Ev_map_swap_page \<notin> set (trace s')"
    by (simp add: raw_swap_writepage_def get_swap_bio_def prims Let_def inputs)
  have e: "trace state5 = []" by (simp add: inputs)
  from w t [of False] have 1: "\<exists>s' evs. raw_swap_writepage blk_env {} END_SWAP_BIO_WRITE state5 = Inr (0, s') \<and>
      trace s' = trace state5 @ evs \<and> fast_sectors evs = [40] \<and> bio_sectors evs = [40] \<and>
      Ev_map_swap_page \<in> set evs"
    unfolding v(2) e by fastforce
  from r t [of False] have 2: "\<exists>s' evs. swap_read_io blk_env False state5 = Some (0, s') \<and>
      trace s' = trace state5 @ evs \<and> fast_sectors evs = [40] \<and> bio_sectors evs = [40] \<and>
      Ev_map_swap_page \<in> set evs"
    unfolding v(2) e by fastforce
  from fw f have 3: "\<exists>s' evs. raw_swap_writepage fast_env {} END_SWAP_BIO_WRITE state5 = Inr (0, s') \<and>
      trace s' = trace state5 @ evs \<and> fast_sectors evs = [40] \<and> bio_sectors evs = [] \<and>
      Ev_map_swap_page \<notin> set evs"
    unfolding v(2) e by fastforce
  from 1 2 3 blk nfs v show ?thesis by blast
qed

text \<open>
  The claim as stated has no lookup at transfer time. On the raw block device, whose one
  extent maps each of its 16 slots to the block of the same number, the write of
  \<open>page5\<close> that takes the generic path calls \<^verbatim>\<open>map_swap_page\<close> (line 48 of
  \<^verbatim>\<open>get_swap_bio\<close>) before it marks the page under writeback and submits the request;
  the sector 40 of the request is the shifted answer of that call.
\<close>

theorem generic_sector_lookup_counterexample:
  "SWP_BLKDEV \<in> sis_flags (page_swap_info blk_env) \<and>
   sis_extents (page_swap_info blk_env) =
     [\<lparr>se_start_page = 0, se_nr_pages = 16, se_start_block = 0\<rparr>] \<and>
   Ev_map_swap_page \<in> set (trace submitted_write) \<and>
   trace submitted_write =
     [Ev_try_to_free_swap, Ev_frontswap_store, Ev_bdev_write_page 40, Ev_map_swap_page,
      Ev_set_page_writeback, Ev_unlock_page,
      Ev_submit_bio \<lparr>bi_sector = 40, bi_bdev = 1, bi_end_io = END_SWAP_BIO_WRITE,
        bi_private = None, bi_status = 0, bi_opf = {REQ_OP_WRITE, REQ_SWAP},
        bi_size = 4096, bi_cnt = 1\<rparr>]"
  by (simp add: submitted_write_def swap_writepage_def raw_swap_writepage_def get_swap_bio_def
        prims Let_def inputs)

end
